theory Spec2Isabelle
  imports Main "HOL-Library.Word" "HOL-Library.Multiset" "HOL-Library.Sublist"
begin

section \<open>JavaScript strings and arrays\<close>

text \<open>
  A JavaScript string is a sequence of UTF-16 code units. The regular expressions of
  \<^verbatim>\<open>src/index.ts\<close> carry no \<^verbatim>\<open>u\<close> flag, so they see code units one by one, and so do
  \<^verbatim>\<open>split\<close>, \<^verbatim>\<open>join\<close> and \<^verbatim>\<open>trim\<close> (every white space character lies in the basic plane).
\<close>

type_synonym jschar = "16 word"
type_synonym jsstring = "jschar list"

definition js :: "string \<Rightarrow> jsstring" where
  \<comment> \<open>an ASCII literal of the source as code units\<close>
  "js s = map of_char s"

abbreviation LF :: jschar where "LF \<equiv> 0x0A"
abbreviation US :: jschar where "US \<equiv> 0x5F"

fun join :: "jsstring \<Rightarrow> jsstring list \<Rightarrow> jsstring" where
  \<comment> \<open>\<^verbatim>\<open>Array.prototype.join(sep)\<close> on an array of strings\<close>
  "join sep [] = []"
| "join sep [x] = x"
| "join sep (x # y # ys) = x @ sep @ join sep (y # ys)"

fun split_on :: "jschar \<Rightarrow> jsstring \<Rightarrow> jsstring list" where
  \<comment> \<open>\<^verbatim>\<open>String.prototype.split(sep)\<close> for a separator of one code unit\<close>
  "split_on sep [] = [[]]"
| "split_on sep (c # cs) =
     (if c = sep then [] # split_on sep cs
      else (case split_on sep cs of
              [] \<Rightarrow> [[c]]
            | l # ls \<Rightarrow> (c # l) # ls))"

section \<open>Category slugs\<close>

text \<open>
  \<^verbatim>\<open>x.replace(/[^A-Za-z0-9]/g, "_").replace(/_+/g, "_")\<close> in \<^verbatim>\<open>labelFilesFromCategories\<close>.
\<close>

definition is_alnum :: "jschar \<Rightarrow> bool" where
  \<comment> \<open>the character class \<^verbatim>\<open>[A-Za-z0-9]\<close>\<close>
  "is_alnum c =
     ((0x41 \<le> c \<and> c \<le> 0x5A) \<or> (0x61 \<le> c \<and> c \<le> 0x7A) \<or> (0x30 \<le> c \<and> c \<le> 0x39))"

definition replace_non_alnum :: "jsstring \<Rightarrow> jsstring" where
  \<comment> \<open>\<^verbatim>\<open>.replace(/[^A-Za-z0-9]/g, "_")\<close>: every code unit outside the class becomes an underscore\<close>
  "replace_non_alnum x = map (\<lambda>c. if is_alnum c then c else US) x"

function collapse_underscores :: "jsstring \<Rightarrow> jsstring" where
  \<comment> \<open>\<^verbatim>\<open>.replace(/_+/g, "_")\<close>: scanning from the left, a greedy match of underscores is
      replaced by one underscore and the scan resumes after the match\<close>
  "collapse_underscores [] = []"
| "collapse_underscores (c # cs) =
     (if c = US then US # collapse_underscores (dropWhile (\<lambda>d. d = US) cs)
      else c # collapse_underscores cs)"
  by pat_completeness auto
termination
  by (relation "measure length") (auto simp: length_dropWhile_le less_Suc_eq_le)

definition slug :: "jsstring \<Rightarrow> jsstring" where
  "slug x = collapse_underscores (replace_non_alnum x)"

text \<open>
  The specification's wording of the slug, for comparison with the code: every maximal run
  of non-alphanumeric characters is collapsed to a single separator.
\<close>

function slug_spec :: "jsstring \<Rightarrow> jsstring" where
  "slug_spec [] = []"
| "slug_spec (c # cs) =
     (if is_alnum c then c # slug_spec cs
      else US # slug_spec (dropWhile (\<lambda>d. \<not> is_alnum d) cs))"
  by pat_completeness auto
termination
  by (relation "measure length") (auto simp: length_dropWhile_le less_Suc_eq_le)

subsection \<open>Properties of the slug\<close>

lemma US_not_alnum: "\<not> is_alnum US"
  by (simp add: is_alnum_def)

lemma set_collapse_underscores: "set (collapse_underscores y) \<subseteq> set y"
proof (induction y rule: collapse_underscores.induct)
  case 1
  show ?case by simp
next
  case (2 c cs)
  have "set (dropWhile (\<lambda>d. d = US) cs) \<subseteq> set cs"
    by (rule set_dropWhileD [THEN subsetI])
  with 2 show ?case by auto
qed

lemma replace_non_alnum_fixed:
  "\<forall>c \<in> set y. is_alnum c \<or> c = US \<Longrightarrow> replace_non_alnum y = y"
  by (induction y) (auto simp: replace_non_alnum_def)

lemma replace_non_alnum_range: "\<forall>c \<in> set (replace_non_alnum x). is_alnum c \<or> c = US"
  by (auto simp: replace_non_alnum_def)

lemma dropWhile_collapse_underscores:
  "z = [] \<or> hd z \<noteq> US \<Longrightarrow>
   dropWhile (\<lambda>d. d = US) (collapse_underscores z) = collapse_underscores z"
  by (cases z) auto

lemma dropWhile_head: "dropWhile P xs = [] \<or> \<not> P (hd (dropWhile P xs))"
  using hd_dropWhile by blast

lemma collapse_underscores_idem:
  "collapse_underscores (collapse_underscores y) = collapse_underscores y"
proof (induction y rule: collapse_underscores.induct)
  case 1
  show ?case by simp
next
  case (2 c cs)
  show ?case
  proof (cases "c = US")
    case True
    let ?z = "dropWhile (\<lambda>d. d = US) cs"
    have "?z = [] \<or> hd ?z \<noteq> US"
      using dropWhile_head [of "\<lambda>d. d = US" cs] by simp
    then have "dropWhile (\<lambda>d. d = US) (collapse_underscores ?z) = collapse_underscores ?z"
      by (rule dropWhile_collapse_underscores)
    with True 2 show ?thesis by simp
  next
    case False
    with 2 show ?thesis by simp
  qed
qed

lemma dropWhile_replace_non_alnum:
  "dropWhile (\<lambda>d. d = US) (replace_non_alnum cs) =
   replace_non_alnum (dropWhile (\<lambda>d. \<not> is_alnum d) cs)"
  by (induction cs) (auto simp: replace_non_alnum_def US_not_alnum)

lemma slug_refines_spec: "slug x = slug_spec x"
proof (induction x rule: slug_spec.induct)
  case 1
  show ?case by (simp add: slug_def replace_non_alnum_def)
next
  case (2 c cs)
  show ?case
  proof (cases "is_alnum c")
    case True
    then have "c \<noteq> US" using US_not_alnum by auto
    with True 2 show ?thesis by (simp add: slug_def replace_non_alnum_def)
  next
    case False
    have "slug (c # cs) =
          US # collapse_underscores (dropWhile (\<lambda>d. d = US) (replace_non_alnum cs))"
      using False by (simp add: slug_def replace_non_alnum_def)
    also have "\<dots> = US # slug (dropWhile (\<lambda>d. \<not> is_alnum d) cs)"
      by (simp add: dropWhile_replace_non_alnum slug_def)
    finally show ?thesis using False 2 by simp
  qed
qed

lemma slug_idem: "slug (slug x) = slug x"
proof -
  have "\<forall>c \<in> set (slug x). is_alnum c \<or> c = US"
    unfolding slug_def
    using set_collapse_underscores [of "replace_non_alnum x"] replace_non_alnum_range [of x]
    by blast
  then have "replace_non_alnum (slug x) = slug x"
    by (rule replace_non_alnum_fixed)
  then show ?thesis
    by (simp add: slug_def collapse_underscores_idem)
qed

lemma slug_billing: "slug (js ''Billing & Invoices'') = js ''Billing_Invoices''"
  by (simp add: slug_def replace_non_alnum_def js_def is_alnum_def)

text \<open>
  Claim C9. The slug of a category name is a function of the name alone, it is the name
  with every maximal run of non-alphanumeric code units replaced by one underscore, the
  name "Billing & Invoices" has the slug "Billing_Invoices", and sanitizing a slug again
  changes nothing.
\<close>

theorem slug_deterministic_idempotent:
  "slug x = slug_spec x \<and>
   slug (js ''Billing & Invoices'') = js ''Billing_Invoices'' \<and>
   slug (slug x) = slug x"
  by (simp add: slug_refines_spec [symmetric] slug_idem slug_billing)

section \<open>Document Assembler\<close>

text \<open>
  A passage of the content store: its text and an optional \<^verbatim>\<open>meta\<close> object with an optional
  \<^verbatim>\<open>position\<close>. Positions are integers (the store numbers the passages of a document), far
  below \<open>2^53\<close>, so the subtraction of the comparator is exact.
\<close>

record meta_fields =
  position :: "int option"

record passage =
  passage_content :: jsstring
  passage_meta :: "meta_fields option"

definition position_or_zero :: "passage \<Rightarrow> int" where
  \<comment> \<open>\<^verbatim>\<open>a.meta?.position ?? 0\<close>\<close>
  "position_or_zero a =
     (case passage_meta a of
        None \<Rightarrow> 0
      | Some m \<Rightarrow> (case position m of None \<Rightarrow> 0 | Some n \<Rightarrow> n))"

definition compare_passages :: "passage \<Rightarrow> passage \<Rightarrow> int" where
  \<comment> \<open>\<^verbatim>\<open>(a, b) => (a.meta?.position ?? 0) - (b.meta?.position ?? 0)\<close>\<close>
  "compare_passages a b = position_or_zero a - position_or_zero b"

text \<open>
  \<^verbatim>\<open>Array.prototype.sort(comparefn)\<close> is a stable sort (ECMAScript 2019): for a consistent
  comparator its result is the one list that is ordered by the comparator and keeps the
  input order among elements that compare equal. Insertion from the right computes it.
\<close>

fun insert_sorted :: "('a \<Rightarrow> 'a \<Rightarrow> int) \<Rightarrow> 'a \<Rightarrow> 'a list \<Rightarrow> 'a list" where
  "insert_sorted cmp x [] = [x]"
| "insert_sorted cmp x (y # ys) =
     (if cmp x y \<le> 0 then x # y # ys else y # insert_sorted cmp x ys)"

definition Array_sort :: "('a \<Rightarrow> 'a \<Rightarrow> int) \<Rightarrow> 'a list \<Rightarrow> 'a list" where
  "Array_sort cmp xs = foldr (insert_sorted cmp) xs []"

text \<open>
  The passages of one file as \<^verbatim>\<open>fetchAllContent\<close> reassembles them (lines 92 to 99):
  \<^verbatim>\<open>.then((x) => x.sort(...)).then((x) => x.map((p) => p.content).join("\n"))\<close>.
\<close>

definition assemble :: "passage list \<Rightarrow> jsstring" where
  "assemble x = join [LF] (map passage_content (Array_sort compare_passages x))"

lemma insert_sorted_insort_key:
  "insert_sorted compare_passages x ys = insort_key position_or_zero x ys"
  by (induction ys) (auto simp: compare_passages_def)

lemma Array_sort_sort_key:
  "Array_sort compare_passages xs = sort_key position_or_zero xs"
  unfolding Array_sort_def sort_key_def
  by (induction xs) (simp_all add: insert_sorted_insort_key)

lemma join_concat: "join sep (x # xs) = x @ concat (map (\<lambda>y. sep @ y) xs)"
  by (induction xs arbitrary: x) simp_all

lemma position_or_zero_cases:
  "position_or_zero \<lparr>passage_content = c, passage_meta = None\<rparr> = 0"
  "position_or_zero \<lparr>passage_content = c, passage_meta = Some \<lparr>position = None\<rparr>\<rparr> = 0"
  "position_or_zero \<lparr>passage_content = c, passage_meta = Some \<lparr>position = Some n\<rparr>\<rparr> = n"
  by (simp_all add: position_or_zero_def)

lemma assemble_example_positions:
  "assemble
     [\<lparr>passage_content = js ''c'', passage_meta = Some \<lparr>position = Some 2\<rparr>\<rparr>,
      \<lparr>passage_content = js ''a'', passage_meta = Some \<lparr>position = Some 0\<rparr>\<rparr>,
      \<lparr>passage_content = js ''b'', passage_meta = Some \<lparr>position = Some 1\<rparr>\<rparr>] =
   js ''a'' @ [LF] @ js ''b'' @ [LF] @ js ''c''"
  by (simp add: assemble_def Array_sort_def compare_passages_def position_or_zero_def js_def)

lemma assemble_example_no_position:
  "assemble
     [\<lparr>passage_content = js ''x'', passage_meta = Some \<lparr>position = None\<rparr>\<rparr>,
      \<lparr>passage_content = js ''y'', passage_meta = Some \<lparr>position = Some 0\<rparr>\<rparr>] =
   js ''x'' @ [LF] @ js ''y''"
  by (simp add: assemble_def Array_sort_def compare_passages_def position_or_zero_def js_def)

lemma assemble_example_no_meta:
  "assemble
     [\<lparr>passage_content = js ''q'', passage_meta = Some \<lparr>position = Some 1\<rparr>\<rparr>,
      \<lparr>passage_content = js ''x'', passage_meta = None\<rparr>,
      \<lparr>passage_content = js ''y'', passage_meta = Some \<lparr>position = Some 0\<rparr>\<rparr>,
      \<lparr>passage_content = js ''w'', passage_meta = Some \<lparr>position = Some (- 1)\<rparr>\<rparr>] =
   js ''w'' @ [LF] @ js ''x'' @ [LF] @ js ''y'' @ [LF] @ js ''q''"
  by (simp add: assemble_def Array_sort_def compare_passages_def position_or_zero_def js_def)

lemma assemble_example_empty_content:
  "assemble
     [\<lparr>passage_content = js ''p'', passage_meta = Some \<lparr>position = Some 2\<rparr>\<rparr>,
      \<lparr>passage_content = [], passage_meta = Some \<lparr>position = Some 1\<rparr>\<rparr>,
      \<lparr>passage_content = js ''r'', passage_meta = Some \<lparr>position = Some 0\<rparr>\<rparr>] =
   js ''r'' @ [LF] @ [LF] @ js ''p''"
  by (simp add: assemble_def Array_sort_def compare_passages_def position_or_zero_def js_def)

text \<open>
  Claim C3. The assembled text of a document is the contents of its passages in ascending
  order of position, a missing position (no \<^verbatim>\<open>meta\<close>, or a \<^verbatim>\<open>meta\<close> without
  \<^verbatim>\<open>position\<close>) counting as 0, each content after the first preceded by exactly one
  newline, empty contents included. The order is that of the stable sort by this key: the
  sorted list is ascending, holds the same passages, and keeps the original relative order
  among passages of equal key. Passages at positions 2, 0, 1 with contents "c", "a", "b"
  assemble to "a", newline, "b", newline, "c"; a passage without position followed by one
  at position 0 stays first; an empty content in the middle leaves two newlines.
\<close>

theorem assemble_sorts_stably_and_joins:
  "assemble ps =
     (case sort_key
             (\<lambda>p. case passage_meta p of
                     None \<Rightarrow> 0
                   | Some m \<Rightarrow> (case position m of None \<Rightarrow> 0 | Some n \<Rightarrow> n)) ps of
        [] \<Rightarrow> []
      | p # qs \<Rightarrow> passage_content p @ concat (map (\<lambda>q. LF # passage_content q) qs)) \<and>
   assemble ps = join [LF] (map passage_content (sort_key position_or_zero ps)) \<and>
   position_or_zero \<lparr>passage_content = c, passage_meta = None\<rparr> = 0 \<and>
   position_or_zero \<lparr>passage_content = c, passage_meta = Some \<lparr>position = None\<rparr>\<rparr> = 0 \<and>
   position_or_zero \<lparr>passage_content = c, passage_meta = Some \<lparr>position = Some n\<rparr>\<rparr> = n \<and>
   sorted (map position_or_zero (Array_sort compare_passages ps)) \<and>
   mset (Array_sort compare_passages ps) = mset ps \<and>
   filter (\<lambda>p. position_or_zero p = k) (Array_sort compare_passages ps) =
     filter (\<lambda>p. position_or_zero p = k) ps \<and>
   assemble
     [\<lparr>passage_content = js ''c'', passage_meta = Some \<lparr>position = Some 2\<rparr>\<rparr>,
      \<lparr>passage_content = js ''a'', passage_meta = Some \<lparr>position = Some 0\<rparr>\<rparr>,
      \<lparr>passage_content = js ''b'', passage_meta = Some \<lparr>position = Some 1\<rparr>\<rparr>] =
     js ''a'' @ [LF] @ js ''b'' @ [LF] @ js ''c'' \<and>
   assemble
     [\<lparr>passage_content = js ''x'', passage_meta = Some \<lparr>position = None\<rparr>\<rparr>,
      \<lparr>passage_content = js ''y'', passage_meta = Some \<lparr>position = Some 0\<rparr>\<rparr>] =
     js ''x'' @ [LF] @ js ''y'' \<and>
   assemble
     [\<lparr>passage_content = js ''q'', passage_meta = Some \<lparr>position = Some 1\<rparr>\<rparr>,
      \<lparr>passage_content = js ''x'', passage_meta = None\<rparr>,
      \<lparr>passage_content = js ''y'', passage_meta = Some \<lparr>position = Some 0\<rparr>\<rparr>,
      \<lparr>passage_content = js ''w'', passage_meta = Some \<lparr>position = Some (- 1)\<rparr>\<rparr>] =
     js ''w'' @ [LF] @ js ''x'' @ [LF] @ js ''y'' @ [LF] @ js ''q'' \<and>
   assemble
     [\<lparr>passage_content = js ''p'', passage_meta = Some \<lparr>position = Some 2\<rparr>\<rparr>,
      \<lparr>passage_content = [], passage_meta = Some \<lparr>position = Some 1\<rparr>\<rparr>,
      \<lparr>passage_content = js ''r'', passage_meta = Some \<lparr>position = Some 0\<rparr>\<rparr>] =
     js ''r'' @ [LF] @ [LF] @ js ''p''"
proof -
  have key: "position_or_zero =
      (\<lambda>p. case passage_meta p of
              None \<Rightarrow> 0
            | Some m \<Rightarrow> (case position m of None \<Rightarrow> 0 | Some n \<Rightarrow> n))"
    by (rule ext) (simp add: position_or_zero_def)
  have s: "Array_sort compare_passages ps = sort_key position_or_zero ps"
    by (rule Array_sort_sort_key)
  have joined: "assemble ps = join [LF] (map passage_content (sort_key position_or_zero ps))"
    by (simp add: assemble_def s)
  have "join [LF] (map passage_content qs) =
      (case qs of
         [] \<Rightarrow> []
       | p # qs \<Rightarrow> passage_content p @ concat (map (\<lambda>q. LF # passage_content q) qs))" for qs
    by (cases qs) (simp_all add: join_concat comp_def)
  from this [of "sort_key position_or_zero ps"]
  have spelled: "assemble ps =
     (case sort_key
             (\<lambda>p. case passage_meta p of
                     None \<Rightarrow> 0
                   | Some m \<Rightarrow> (case position m of None \<Rightarrow> 0 | Some n \<Rightarrow> n)) ps of
        [] \<Rightarrow> []
      | p # qs \<Rightarrow> passage_content p @ concat (map (\<lambda>q. LF # passage_content q) qs))"
    unfolding joined key .
  have ascending: "sorted (map position_or_zero (Array_sort compare_passages ps))"
    by (simp add: s)
  have same_passages: "mset (Array_sort compare_passages ps) = mset ps"
    by (simp add: s)
  have stable: "filter (\<lambda>p. position_or_zero p = k) (Array_sort compare_passages ps) =
        filter (\<lambda>p. position_or_zero p = k) ps"
    unfolding s by (rule sort_key_stable)
  from spelled joined position_or_zero_cases [of c] position_or_zero_cases(3) [of c n]
    ascending same_passages stable
    assemble_example_positions assemble_example_no_position assemble_example_no_meta
    assemble_example_empty_content
  show ?thesis
    by (intro conjI)
qed


section \<open>The content cache\<close>

text \<open>
  \<^verbatim>\<open>const fileContentCache = new Map<string, string>()\<close>. A JavaScript \<^verbatim>\<open>Map\<close> is the list of
  its entries in insertion order; \<^verbatim>\<open>set\<close> on a key that is present replaces the value in place
  and otherwise appends the entry.
\<close>

type_synonym cache = "(jsstring \<times> jsstring) list"

definition Map_has :: "('k \<times> 'v) list \<Rightarrow> 'k \<Rightarrow> bool" where
  "Map_has m k = (k \<in> set (map fst m))"

fun Map_set :: "('k \<times> 'v) list \<Rightarrow> 'k \<Rightarrow> 'v \<Rightarrow> ('k \<times> 'v) list" where
  "Map_set [] k v = [(k, v)]"
| "Map_set ((k', v') # m) k v =
     (if k' = k then (k', v) # m else (k', v') # Map_set m k v)"

text \<open>
  Whatever can be thrown: the \<^verbatim>\<open>SyntaxError\<close> of \<^verbatim>\<open>JSON.parse\<close>, the \<^verbatim>\<open>TypeError\<close> of
  destructuring \<^verbatim>\<open>null\<close>, and the rejection of a call to an external collaborator (content
  store, blob store, AI capability).
\<close>

datatype error = SyntaxError | TypeError | ServiceError

section \<open>Category Synthesizer\<close>

definition MAX_CATEGORIES :: nat where
  "MAX_CATEGORIES = 250"

definition is_white_space :: "jschar \<Rightarrow> bool" where
  \<comment> \<open>WhiteSpace and LineTerminator of ECMAScript, the code units \<^verbatim>\<open>trim\<close> strips\<close>
  "is_white_space c =
     (c = 0x09 \<or> c = 0x0A \<or> c = 0x0B \<or> c = 0x0C \<or> c = 0x0D \<or> c = 0x20 \<or> c = 0xA0 \<or>
      c = 0x1680 \<or> (0x2000 \<le> c \<and> c \<le> 0x200A) \<or> c = 0x2028 \<or> c = 0x2029 \<or>
      c = 0x202F \<or> c = 0x205F \<or> c = 0x3000 \<or> c = 0xFEFF)"

definition trim :: "jsstring \<Rightarrow> jsstring" where
  \<comment> \<open>\<^verbatim>\<open>String.prototype.trim\<close>\<close>
  "trim s = rev (dropWhile is_white_space (rev (dropWhile is_white_space s)))"

text \<open>
  The two AI capabilities are parameters: \<^verbatim>\<open>zai.summarize\<close> receives the corpus together
  with a format and a prompt whose only variable part is \<^verbatim>\<open>MAX_CATEGORIES\<close>, and
  \<^verbatim>\<open>zai.extract\<close> turns the text into records of the shape
  \<^verbatim>\<open>z.array(z.object({ name: z.string() }))\<close>. Either may reject. \<^verbatim>\<open>filter(Boolean)\<close> keeps the
  strings that are not empty.
\<close>

record category_record =
  name :: jsstring

definition generateListOfCategories ::
  "(nat \<Rightarrow> jsstring \<Rightarrow> error + jsstring) \<Rightarrow> (jsstring \<Rightarrow> error + category_record list) \<Rightarrow>
   cache \<Rightarrow> error + jsstring list" where
  "generateListOfCategories summarize extract fileContentCache =
     (let allContent = join [LF] (map snd fileContentCache) in
      case summarize MAX_CATEGORIES allContent of
        Inl e \<Rightarrow> Inl e
      | Inr categoriesAsText \<Rightarrow>
          (case extract categoriesAsText of
             Inl e \<Rightarrow> Inl e
           | Inr categoriesAsArray \<Rightarrow>
               Inr (filter (\<lambda>x. x \<noteq> []) (map (\<lambda>x. trim (name x)) categoriesAsArray))))"

text \<open>Example capabilities, for evaluating the synthesizer on concrete inputs.\<close>

definition summarize_echo :: "nat \<Rightarrow> jsstring \<Rightarrow> error + jsstring" where
  "summarize_echo n allContent = Inr allContent"

definition extract_many :: "jsstring \<Rightarrow> error + category_record list" where
  "extract_many categoriesAsText = Inr (replicate 251 \<lparr>name = js ''a''\<rparr>)"

definition extract_padded :: "jsstring \<Rightarrow> error + category_record list" where
  "extract_padded categoriesAsText =
     Inr [\<lparr>name = [0x09, 0x20] @ js ''Billing'' @ [0xA0, 0x0A]\<rparr>,
          \<lparr>name = [0x2003, 0xFEFF, 0x20]\<rparr>,
          \<lparr>name = js ''Tax && VAT''\<rparr>,
          \<lparr>name = []\<rparr>]"

definition extract_rejects :: "jsstring \<Rightarrow> error + category_record list" where
  "extract_rejects categoriesAsText = Inl ServiceError"

subsection \<open>Properties of the synthesized list\<close>

lemma trim_head: "trim s = [] \<or> \<not> is_white_space (hd (trim s))"
proof (cases "trim s = []")
  case True
  then show ?thesis by simp
next
  case False
  let ?t = "dropWhile is_white_space s"
  let ?u = "dropWhile is_white_space (rev ?t)"
  have u: "trim s = rev ?u" by (simp add: trim_def)
  have t: "?t = rev ?u @ rev (takeWhile is_white_space (rev ?t))"
    by (metis rev_append rev_rev_ident takeWhile_dropWhile_id)
  from False u have "rev ?u \<noteq> []" by simp
  with t have "hd ?t = hd (rev ?u)" by (metis hd_append2)
  moreover have "?t \<noteq> []" using t \<open>rev ?u \<noteq> []\<close> by (metis append_is_Nil_conv)
  then have "\<not> is_white_space (hd ?t)" using hd_dropWhile by blast
  ultimately show ?thesis using u by simp
qed

lemma trim_last: "trim s = [] \<or> \<not> is_white_space (last (trim s))"
proof (cases "trim s = []")
  case True
  then show ?thesis by simp
next
  case False
  let ?u = "dropWhile is_white_space (rev (dropWhile is_white_space s))"
  have u: "trim s = rev ?u" by (simp add: trim_def)
  with False have "?u \<noteq> []" by simp
  then have "\<not> is_white_space (hd ?u)" using hd_dropWhile by blast
  moreover have "last (rev ?u) = hd ?u" using \<open>?u \<noteq> []\<close> by (simp add: last_rev)
  ultimately show ?thesis using u by simp
qed

lemma trim_idem: "trim (trim s) = trim s"
proof -
  have a: "dropWhile is_white_space (trim s) = trim s"
    using trim_head [of s] by (simp add: dropWhile_eq_self_iff)
  have "rev (trim s) = [] \<or> \<not> is_white_space (hd (rev (trim s)))"
    using trim_last [of s] by (cases "trim s = []") (simp_all add: hd_rev)
  then have b: "dropWhile is_white_space (rev (trim s)) = rev (trim s)"
    by (simp add: dropWhile_eq_self_iff)
  show ?thesis
    unfolding trim_def [of "trim s"] a b by simp
qed

lemma categories_trimmed:
  "list_all (\<lambda>e. e \<noteq> [] \<and> trim e = e \<and> \<not> is_white_space (hd e) \<and> \<not> is_white_space (last e))
     (filter (\<lambda>x. x \<noteq> []) (map (\<lambda>x. trim (name x)) recs))"
proof (induction recs)
  case Nil
  show ?case by simp
next
  case (Cons r recs)
  from trim_head [of "name r"] trim_last [of "name r"] Cons show ?case
    by (auto simp: trim_idem)
qed

lemma length_categories:
  "length (filter (\<lambda>x. x \<noteq> []) (map (\<lambda>x. trim (name x)) recs)) =
   length (filter (\<lambda>r. trim (name r) \<noteq> []) recs)"
  by (induction recs) simp_all

lemma generateListOfCategories_returns:
  "summarize MAX_CATEGORIES (join [LF] (map snd fileContentCache)) = Inr categoriesAsText \<Longrightarrow>
   extract categoriesAsText = Inr categoriesAsArray \<Longrightarrow>
   generateListOfCategories summarize extract fileContentCache =
     Inr (filter (\<lambda>x. x \<noteq> []) (map (\<lambda>x. trim (name x)) categoriesAsArray))"
  by (simp add: generateListOfCategories_def)

lemma generateListOfCategories_Inl:
  "generateListOfCategories summarize extract fileContentCache = Inl e \<Longrightarrow>
   summarize MAX_CATEGORIES (join [LF] (map snd fileContentCache)) = Inl e \<or>
   (\<exists>t. summarize MAX_CATEGORIES (join [LF] (map snd fileContentCache)) = Inr t \<and>
        extract t = Inl e)"
  by (auto simp: generateListOfCategories_def Let_def split: sum.splits)

lemma generateListOfCategories_Inr:
  assumes "generateListOfCategories summarize extract fileContentCache = Inr categories"
  shows "\<exists>t a.
           summarize MAX_CATEGORIES (join [LF] (map snd fileContentCache)) = Inr t \<and>
           extract t = Inr a \<and>
           categories = filter (\<lambda>x. x \<noteq> []) (map (\<lambda>x. trim (name x)) a) \<and>
           length categories = length (filter (\<lambda>r. trim (name r) \<noteq> []) a) \<and>
           length categories \<le> length a \<and>
           list_all (\<lambda>e. e \<noteq> [] \<and> trim e = e \<and>
                          \<not> is_white_space (hd e) \<and> \<not> is_white_space (last e)) categories"
proof -
  from assms obtain t where t: "summarize MAX_CATEGORIES (join [LF] (map snd fileContentCache)) = Inr t"
    by (auto simp: generateListOfCategories_def Let_def split: sum.splits)
  with assms obtain a where a: "extract t = Inr a"
    by (auto simp: generateListOfCategories_def Let_def split: sum.splits)
  from assms t a
  have c: "categories = filter (\<lambda>x. x \<noteq> []) (map (\<lambda>x. trim (name x)) a)"
    by (simp add: generateListOfCategories_def Let_def)
  have n: "length categories = length (filter (\<lambda>r. trim (name r) \<noteq> []) a)"
    unfolding c by (rule length_categories)
  then have le: "length categories \<le> length a"
    by simp
  have all: "list_all (\<lambda>e. e \<noteq> [] \<and> trim e = e \<and>
      \<not> is_white_space (hd e) \<and> \<not> is_white_space (last e)) categories"
    unfolding c by (rule categories_trimmed)
  show ?thesis
    by (rule exI [of _ t], rule exI [of _ a]) (intro conjI t a c n le all)
qed

text \<open>
  Claim C1, as stated, fails: nothing in \<^verbatim>\<open>generateListOfCategories\<close> truncates the list.
  \<^verbatim>\<open>MAX_CATEGORIES\<close> only reaches the format and the prompt of the summarization request.
  When the extraction capability yields 251 records named "a", all 251 are returned.
\<close>

theorem categories_not_capped:
  "generateListOfCategories summarize_echo extract_many [] = Inr (replicate 251 (js ''a'')) \<and>
   MAX_CATEGORIES < length (replicate 251 (js ''a''))"
proof -
  have "trim (js ''a'') = js ''a''"
    by (simp add: trim_def js_def is_white_space_def)
  moreover have "js ''a'' \<noteq> []"
    by (simp add: js_def)
  ultimately show ?thesis
    by (simp add: generateListOfCategories_def summarize_echo_def extract_many_def
        MAX_CATEGORIES_def)
qed

text \<open>
  Claim C1, amended. The synthesizer neither truncates nor raises on its own. Whenever
  both capabilities return, whatever the number of extracted records, it returns the
  trimmed names of the extracted records with the empty ones dropped, in the order of
  extraction; it fails only with the error of a capability that rejected. Its list has as
  many entries as there are records whose name is not blank, so at most as many as the
  extraction yields (the bound \<^verbatim>\<open>MAX_CATEGORIES\<close> is only requested from the summarization
  capability), and every entry is non-empty, unchanged by trimming, and neither starts nor
  ends with white space.
\<close>

theorem categories_trimmed_nonempty:
  "(summarize MAX_CATEGORIES (join [LF] (map snd fileContentCache)) = Inr categoriesAsText \<and>
    extract categoriesAsText = Inr categoriesAsArray \<longrightarrow>
      generateListOfCategories summarize extract fileContentCache =
        Inr (filter (\<lambda>x. x \<noteq> []) (map (\<lambda>x. trim (name x)) categoriesAsArray))) \<and>
   (generateListOfCategories summarize extract fileContentCache = Inl e \<longrightarrow>
      summarize MAX_CATEGORIES (join [LF] (map snd fileContentCache)) = Inl e \<or>
      (\<exists>t. summarize MAX_CATEGORIES (join [LF] (map snd fileContentCache)) = Inr t \<and>
           extract t = Inl e)) \<and>
   (generateListOfCategories summarize extract fileContentCache = Inr categories \<longrightarrow>
      (\<exists>t a.
         summarize MAX_CATEGORIES (join [LF] (map snd fileContentCache)) = Inr t \<and>
         extract t = Inr a \<and>
         categories = filter (\<lambda>x. x \<noteq> []) (map (\<lambda>x. trim (name x)) a) \<and>
         length categories = length (filter (\<lambda>r. trim (name r) \<noteq> []) a) \<and>
         length categories \<le> length a \<and>
         list_all (\<lambda>e. e \<noteq> [] \<and> trim e = e \<and>
                        \<not> is_white_space (hd e) \<and> \<not> is_white_space (last e)) categories))"
proof (intro conjI impI)
  assume "summarize MAX_CATEGORIES (join [LF] (map snd fileContentCache)) = Inr categoriesAsText \<and>
    extract categoriesAsText = Inr categoriesAsArray"
  then show "generateListOfCategories summarize extract fileContentCache =
        Inr (filter (\<lambda>x. x \<noteq> []) (map (\<lambda>x. trim (name x)) categoriesAsArray))"
    using generateListOfCategories_returns by blast
next
  assume "generateListOfCategories summarize extract fileContentCache = Inl e"
  then show "summarize MAX_CATEGORIES (join [LF] (map snd fileContentCache)) = Inl e \<or>
      (\<exists>t. summarize MAX_CATEGORIES (join [LF] (map snd fileContentCache)) = Inr t \<and>
           extract t = Inl e)"
    by (rule generateListOfCategories_Inl)
next
  assume "generateListOfCategories summarize extract fileContentCache = Inr categories"
  then show "\<exists>t a.
         summarize MAX_CATEGORIES (join [LF] (map snd fileContentCache)) = Inr t \<and>
         extract t = Inr a \<and>
         categories = filter (\<lambda>x. x \<noteq> []) (map (\<lambda>x. trim (name x)) a) \<and>
         length categories = length (filter (\<lambda>r. trim (name r) \<noteq> []) a) \<and>
         length categories \<le> length a \<and>
         list_all (\<lambda>e. e \<noteq> [] \<and> trim e = e \<and>
                        \<not> is_white_space (hd e) \<and> \<not> is_white_space (last e)) categories"
    by (rule generateListOfCategories_Inr)
qed

theorem categories_trimmed_nonempty_witness:
  "summarize_echo MAX_CATEGORIES (join [LF] (map snd ([] :: cache))) = Inr [] \<and>
   extract_many [] = Inr (replicate 251 \<lparr>name = js ''a''\<rparr>) \<and>
   generateListOfCategories summarize_echo extract_many [] =
     Inr (filter (\<lambda>x. x \<noteq> []) (map (\<lambda>x. trim (name x)) (replicate 251 \<lparr>name = js ''a''\<rparr>))) \<and>
   generateListOfCategories summarize_echo extract_rejects [] = Inl ServiceError \<and>
   (summarize_echo MAX_CATEGORIES (join [LF] (map snd ([] :: cache))) = Inl ServiceError \<or>
    (\<exists>t. summarize_echo MAX_CATEGORIES (join [LF] (map snd ([] :: cache))) = Inr t \<and>
         extract_rejects t = Inl ServiceError)) \<and>
   generateListOfCategories summarize_echo extract_padded [] =
     Inr [js ''Billing'', js ''Tax && VAT''] \<and>
   (\<exists>t a.
      summarize_echo MAX_CATEGORIES (join [LF] (map snd ([] :: cache))) = Inr t \<and>
      extract_padded t = Inr a \<and>
      [js ''Billing'', js ''Tax && VAT''] =
        filter (\<lambda>x. x \<noteq> []) (map (\<lambda>x. trim (name x)) a) \<and>
      length [js ''Billing'', js ''Tax && VAT''] =
        length (filter (\<lambda>r. trim (name r) \<noteq> []) a) \<and>
      length [js ''Billing'', js ''Tax && VAT''] \<le> length a \<and>
      list_all (\<lambda>e. e \<noteq> [] \<and> trim e = e \<and>
                     \<not> is_white_space (hd e) \<and> \<not> is_white_space (last e))
        [js ''Billing'', js ''Tax && VAT''])"
proof -
  have s: "summarize_echo MAX_CATEGORIES (join [LF] (map snd ([] :: cache))) = Inr []"
    by (simp add: summarize_echo_def)
  have many: "extract_many [] = Inr (replicate 251 \<lparr>name = js ''a''\<rparr>)"
    by (simp add: extract_many_def)
  have rejected: "generateListOfCategories summarize_echo extract_rejects [] = Inl ServiceError"
    by (simp add: generateListOfCategories_def summarize_echo_def extract_rejects_def)
  have padded: "generateListOfCategories summarize_echo extract_padded [] =
      Inr [js ''Billing'', js ''Tax && VAT'']"
    by (simp add: generateListOfCategories_def summarize_echo_def extract_padded_def
        trim_def js_def is_white_space_def)
  note a = categories_trimmed_nonempty [of summarize_echo "[]" "[]" extract_many
      "replicate 251 \<lparr>name = js ''a''\<rparr>", THEN conjunct1, THEN mp, OF conjI [OF s many]]
  note b = categories_trimmed_nonempty [of summarize_echo "[]" _ extract_rejects _ ServiceError,
      THEN conjunct2, THEN conjunct1, THEN mp, OF rejected]
  note c = categories_trimmed_nonempty [of summarize_echo "[]" _ extract_padded _ _
      "[js ''Billing'', js ''Tax && VAT'']", THEN conjunct2, THEN conjunct2, THEN mp, OF padded]
  show ?thesis
    by (rule conjI [OF s conjI [OF many conjI [OF a conjI [OF rejected conjI [OF b
          conjI [OF padded c]]]]]])
qed

section \<open>Labeling Driver\<close>

text \<open>
  \<^verbatim>\<open>const labels = categories.map((x) => [slug of x, x])\<close>: the candidate list, one pair per
  category.
\<close>

definition candidate_labels :: "jsstring list \<Rightarrow> (jsstring \<times> jsstring) list" where
  "candidate_labels categories = map (\<lambda>x. (slug x, x)) categories"

text \<open>
  \<^verbatim>\<open>Object.fromEntries(labels)\<close> defines one property per entry, in order, so a later entry
  with the same key replaces the value of the earlier one. The object is modelled by its
  properties in order of creation; nothing below depends on the order in which an engine
  enumerates them.
\<close>

definition Object_fromEntries :: "('k \<times> 'v) list \<Rightarrow> ('k \<times> 'v) list" where
  "Object_fromEntries entries = fold (\<lambda>(k, v) obj. Map_set obj k v) entries []"

text \<open>
  The calls a labeling run completes, in order: a request to \<^verbatim>\<open>zai.label\<close> with the content
  and the candidate object, and a \<^verbatim>\<open>client.updateFileMetadata\<close> with the cache key as
  \<^verbatim>\<open>id\<close> and the list stored under \<^verbatim>\<open>categories\<close>. Both collaborators are parameters and
  may reject, which ends the run with the error. The selection \<^verbatim>\<open>labelsToApply\<close> that the
  labeling capability returns is only logged.
\<close>

datatype label_event =
  LabelRequest jsstring "(jsstring \<times> jsstring) list"
| MetadataWrite jsstring "(jsstring \<times> jsstring) list"

fun labelFilesFromCategories ::
  "(jsstring \<Rightarrow> (jsstring \<times> jsstring) list \<Rightarrow> error + 'sel) \<Rightarrow>
   (jsstring \<Rightarrow> (jsstring \<times> jsstring) list \<Rightarrow> error option) \<Rightarrow>
   jsstring list \<Rightarrow> cache \<Rightarrow> label_event list \<times> error option" where
  "labelFilesFromCategories label updateFileMetadata categories [] = ([], None)"
| "labelFilesFromCategories label updateFileMetadata categories ((key, content) # rest) =
     (let labels = candidate_labels categories;
          candidates = Object_fromEntries labels in
      case label content candidates of
        Inl e \<Rightarrow> ([], Some e)
      | Inr labelsToApply \<Rightarrow>
          if length labels > 0 then
            (case updateFileMetadata key labels of
               Some e \<Rightarrow> ([LabelRequest content candidates], Some e)
             | None \<Rightarrow>
                 (case labelFilesFromCategories label updateFileMetadata categories rest of
                    (events, status) \<Rightarrow>
                      (LabelRequest content candidates # MetadataWrite key labels # events,
                       status)))
          else
            (case labelFilesFromCategories label updateFileMetadata categories rest of
               (events, status) \<Rightarrow> (LabelRequest content candidates # events, status)))"

fun metadata_writes :: "label_event list \<Rightarrow> (jsstring \<times> (jsstring \<times> jsstring) list) list" where
  "metadata_writes [] = []"
| "metadata_writes (MetadataWrite key labels # es) = (key, labels) # metadata_writes es"
| "metadata_writes (LabelRequest content candidates # es) = metadata_writes es"

fun label_requests :: "label_event list \<Rightarrow> (jsstring \<times> (jsstring \<times> jsstring) list) list" where
  "label_requests [] = []"
| "label_requests (LabelRequest content candidates # es) = (content, candidates) # label_requests es"
| "label_requests (MetadataWrite key labels # es) = label_requests es"

text \<open>Example collaborators: a labeler that selects nothing, a store that accepts.\<close>

definition label_nothing :: "jsstring \<Rightarrow> (jsstring \<times> jsstring) list \<Rightarrow> error + jsstring list" where
  "label_nothing content candidates = Inr []"

definition update_ok :: "jsstring \<Rightarrow> (jsstring \<times> jsstring) list \<Rightarrow> error option" where
  "update_ok key labels = None"

subsection \<open>Objects built from entries\<close>

lemma map_of_Map_set: "map_of (Map_set m k v) = (map_of m)(k \<mapsto> v)"
  by (induction m) (auto simp: fun_eq_iff)

lemma keys_Map_set: "fst ` set (Map_set m k v) = insert k (fst ` set m)"
proof (induction m)
  case Nil
  show ?case by simp
next
  case (Cons e m)
  obtain k' v' where e: "e = (k', v')" by (cases e)
  from Cons show ?case
    by (cases "k' = k") (simp_all add: e insert_commute)
qed

lemma distinct_Map_set: "distinct (map fst m) \<Longrightarrow> distinct (map fst (Map_set m k v))"
proof (induction m)
  case Nil
  show ?case by simp
next
  case (Cons e m)
  obtain k' v' where e: "e = (k', v')" by (cases e)
  from Cons have d: "k' \<notin> fst ` set m" "distinct (map fst (Map_set m k v))"
    by (simp_all add: e)
  show ?case
  proof (cases "k' = k")
    case True
    with Cons.prems show ?thesis by (simp add: e)
  next
    case False
    with d show ?thesis by (simp add: e keys_Map_set)
  qed
qed

lemma fold_Map_set:
  "map_of (fold (\<lambda>(k, v) obj. Map_set obj k v) es m) = map_of (rev es @ m) \<and>
   fst ` set (fold (\<lambda>(k, v) obj. Map_set obj k v) es m) = fst ` set es \<union> fst ` set m \<and>
   (distinct (map fst m) \<longrightarrow> distinct (map fst (fold (\<lambda>(k, v) obj. Map_set obj k v) es m)))"
proof (induction es arbitrary: m)
  case Nil
  show ?case by simp
next
  case (Cons e es)
  obtain k v where e: "e = (k, v)" by (cases e)
  have "map_of (rev es @ Map_set m k v) = map_of (rev es @ [(k, v)] @ m)"
    by (simp add: map_of_Map_set fun_eq_iff map_add_def split: option.splits)
  with Cons [of "Map_set m k v"] show ?case
    by (auto simp: e keys_Map_set distinct_Map_set)
qed

lemma map_of_Object_fromEntries: "map_of (Object_fromEntries es) = map_of (rev es)"
  using fold_Map_set [of es "[]"] by (simp add: Object_fromEntries_def)

lemma length_Object_fromEntries: "length (Object_fromEntries es) = card (set (map fst es))"
proof -
  have "distinct (map fst (Object_fromEntries es))"
    using fold_Map_set [of es "[]"] by (simp add: Object_fromEntries_def)
  then have "card (set (map fst (Object_fromEntries es))) = length (map fst (Object_fromEntries es))"
    by (rule distinct_card)
  moreover have "set (map fst (Object_fromEntries es)) = set (map fst es)"
    using fold_Map_set [of es "[]"] by (simp add: Object_fromEntries_def)
  ultimately show ?thesis by simp
qed

lemma map_of_rev_last:
  "map_of (rev (map (\<lambda>x. (f x, x)) xs)) s =
     (if filter (\<lambda>x. f x = s) xs = [] then None else Some (last (filter (\<lambda>x. f x = s) xs)))"
  by (induction xs rule: rev_induct) auto

subsection \<open>The events of a labeling run\<close>

text \<open>
  What a run that is not interrupted does: for every cache entry a labeling request, then,
  if there is any category, a metadata write.
\<close>

definition label_script :: "jsstring list \<Rightarrow> cache \<Rightarrow> label_event list" where
  "label_script categories fileContentCache =
     concat (map (\<lambda>(key, content).
       LabelRequest content (Object_fromEntries (candidate_labels categories)) #
       (if categories = [] then [] else [MetadataWrite key (candidate_labels categories)]))
       fileContentCache)"

lemma label_run_script:
  "labelFilesFromCategories label upd categories c = (events, status) \<Longrightarrow>
   prefix events (label_script categories c) \<and>
   (status = None \<longrightarrow> events = label_script categories c)"
proof (induction c arbitrary: events status)
  case Nil
  then show ?case by (simp add: label_script_def)
next
  case (Cons entry rest)
  obtain key content where entry: "entry = (key, content)" by (cases entry)
  obtain ev st where rest: "labelFilesFromCategories label upd categories rest = (ev, st)"
    by (cases "labelFilesFromCategories label upd categories rest")
  from Cons.IH [OF rest]
  have ih: "prefix ev (label_script categories rest)"
    "st = None \<longrightarrow> ev = label_script categories rest" by simp_all
  have script: "label_script categories (entry # rest) =
      LabelRequest content (Object_fromEntries (candidate_labels categories)) #
       (if categories = [] then [] else [MetadataWrite key (candidate_labels categories)]) @
       label_script categories rest"
    by (simp add: label_script_def entry)
  show ?case
  proof (cases "categories = []")
    case True
    from rest True have rest': "labelFilesFromCategories label upd [] rest = (ev, st)"
      by simp
    from Cons.prems ih show ?thesis
      unfolding script
      by (auto simp: True entry rest' Let_def candidate_labels_def split: sum.splits)
  next
    case False
    from Cons.prems ih False show ?thesis
      unfolding script
      by (auto simp: entry rest Let_def candidate_labels_def split: sum.splits option.splits)
  qed
qed

lemma metadata_writes_script:
  "metadata_writes (label_script categories c) =
     (if categories = [] then [] else map (\<lambda>(key, content). (key, candidate_labels categories)) c)"
  by (induction c) (auto simp: label_script_def)

lemma label_requests_script:
  "label_requests (label_script categories c) =
     map (\<lambda>(key, content). (content, Object_fromEntries (candidate_labels categories))) c"
  by (induction c) (auto simp: label_script_def)

lemma metadata_writes_append:
  "metadata_writes (xs @ ys) = metadata_writes xs @ metadata_writes ys"
  by (induction xs rule: metadata_writes.induct) simp_all

lemma label_requests_append:
  "label_requests (xs @ ys) = label_requests xs @ label_requests ys"
  by (induction xs rule: label_requests.induct) simp_all

lemma label_run_writes:
  assumes "labelFilesFromCategories label upd categories c = (events, status)"
  shows "prefix (metadata_writes events)
           (if categories = [] then []
            else map (\<lambda>(key, content). (key, candidate_labels categories)) c)"
    and "status = None \<Longrightarrow> metadata_writes events =
           (if categories = [] then []
            else map (\<lambda>(key, content). (key, candidate_labels categories)) c)"
proof -
  note script = label_run_script [OF assms]
  from script [THEN conjunct1]
  obtain zs where zs: "label_script categories c = events @ zs"
    unfolding prefix_def by blast
  note all = script [THEN conjunct2]
  have "metadata_writes (label_script categories c) =
        metadata_writes events @ metadata_writes zs"
    by (simp add: zs metadata_writes_append)
  then show "prefix (metadata_writes events)
           (if categories = [] then []
            else map (\<lambda>(key, content). (key, candidate_labels categories)) c)"
    unfolding metadata_writes_script [symmetric] by (simp add: prefix_def)
  show "status = None \<Longrightarrow> metadata_writes events =
           (if categories = [] then []
            else map (\<lambda>(key, content). (key, candidate_labels categories)) c)"
    using all metadata_writes_script [of categories c] by simp
qed

lemma label_run_requests:
  assumes "labelFilesFromCategories label upd categories c = (events, status)"
  shows "prefix (label_requests events)
           (map (\<lambda>(key, content). (content, Object_fromEntries (candidate_labels categories))) c)"
    and "status = None \<Longrightarrow> label_requests events =
           map (\<lambda>(key, content). (content, Object_fromEntries (candidate_labels categories))) c"
proof -
  note script = label_run_script [OF assms]
  from script [THEN conjunct1]
  obtain zs where zs: "label_script categories c = events @ zs"
    unfolding prefix_def by blast
  note all = script [THEN conjunct2]
  have "label_requests (label_script categories c) =
        label_requests events @ label_requests zs"
    by (simp add: zs label_requests_append)
  then show "prefix (label_requests events)
           (map (\<lambda>(key, content). (content, Object_fromEntries (candidate_labels categories))) c)"
    unfolding label_requests_script [symmetric] by (simp add: prefix_def)
  show "status = None \<Longrightarrow> label_requests events =
           map (\<lambda>(key, content). (content, Object_fromEntries (candidate_labels categories))) c"
    using all label_requests_script [of categories c] by simp
qed

definition three_categories :: "jsstring list" where
  "three_categories = [js ''Tax'', js ''Billing & Invoices'', js ''HR'']"

definition three_labels :: "(jsstring \<times> jsstring) list" where
  "three_labels =
     [(js ''Tax'', js ''Tax''), (js ''Billing_Invoices'', js ''Billing & Invoices''),
      (js ''HR'', js ''HR'')]"

definition two_documents :: cache where
  "two_documents = [(js ''doc1'', js ''invoice text''), (js ''doc2'', js ''payroll text'')]"

lemma list_all_written:
  assumes "prefix ws (map (\<lambda>(key, content). (key, labels)) c)"
  shows "list_all (\<lambda>(key, written). written = labels) ws"
proof -
  from assms have "set ws \<subseteq> set (map (\<lambda>(key, content). (key, labels)) c)"
    by (rule set_mono_prefix)
  then show ?thesis
    by (auto simp: list_all_iff)
qed

text \<open>
  Claim C2. The metadata writes of a labeling run carry, for the cache entries in order and
  under their cache keys, the full candidate list: one (slug, name) pair for every category,
  in the order of the categories, so the names written are exactly the category list and
  the slugs written are the slugs of those names. The writes of any run are a prefix of
  that list of writes, and a run that completes has made all of them, whatever the labeling
  capability selected. With no category nothing is written; with at least one, every cache
  entry gets the write, also when the labeling capability selects nothing.
\<close>

theorem metadata_is_full_candidate_list:
  assumes "labelFilesFromCategories label updateFileMetadata categories fileContentCache =
             (events, status)"
  shows "(categories = [] \<longrightarrow> metadata_writes events = []) \<and>
         (categories \<noteq> [] \<longrightarrow>
            prefix (metadata_writes events)
              (map (\<lambda>(key, content). (key, map (\<lambda>x. (slug x, x)) categories))
                 fileContentCache)) \<and>
         (categories \<noteq> [] \<and> status = None \<longrightarrow>
            metadata_writes events =
              map (\<lambda>(key, content). (key, map (\<lambda>x. (slug x, x)) categories))
                fileContentCache) \<and>
         list_all (\<lambda>(key, labels).
             map snd labels = categories \<and> map fst labels = map slug categories \<and>
             length labels = length categories)
           (metadata_writes events)"
proof -
  have labels: "candidate_labels categories = map (\<lambda>x. (slug x, x)) categories"
    by (simp add: candidate_labels_def)
  note writes = label_run_writes [OF assms, unfolded labels]
  have none: "categories = [] \<longrightarrow> metadata_writes events = []"
    using writes(1) by (cases "categories = []") simp_all
  have some: "categories \<noteq> [] \<longrightarrow>
            prefix (metadata_writes events)
              (map (\<lambda>(key, content). (key, map (\<lambda>x. (slug x, x)) categories))
                 fileContentCache)"
    using writes(1) by (cases "categories = []") simp_all
  have completed: "categories \<noteq> [] \<and> status = None \<longrightarrow>
            metadata_writes events =
              map (\<lambda>(key, content). (key, map (\<lambda>x. (slug x, x)) categories))
                fileContentCache"
    using writes(2) by (cases "categories = []") simp_all
  have "list_all (\<lambda>(key, written). written = map (\<lambda>x. (slug x, x)) categories)
      (metadata_writes events)"
  proof (cases "categories = []")
    case True
    with none show ?thesis by simp
  next
    case False
    with some show ?thesis by (simp add: list_all_written)
  qed
  then have full: "list_all (\<lambda>(key, labels).
             map snd labels = categories \<and> map fst labels = map slug categories \<and>
             length labels = length categories)
           (metadata_writes events)"
    by (auto simp: list_all_iff comp_def)
  from none some completed full show ?thesis
    by (intro conjI)
qed

theorem metadata_is_full_candidate_list_witness:
  "labelFilesFromCategories label_nothing update_ok three_categories two_documents =
     ([LabelRequest (js ''invoice text'') three_labels, MetadataWrite (js ''doc1'') three_labels,
       LabelRequest (js ''payroll text'') three_labels, MetadataWrite (js ''doc2'') three_labels],
      None) \<and>
   three_categories \<noteq> [] \<and>
   metadata_writes
     [LabelRequest (js ''invoice text'') three_labels, MetadataWrite (js ''doc1'') three_labels,
      LabelRequest (js ''payroll text'') three_labels, MetadataWrite (js ''doc2'') three_labels] =
     map (\<lambda>(key, content). (key, map (\<lambda>x. (slug x, x)) three_categories)) two_documents \<and>
   list_all (\<lambda>(key, labels).
       map snd labels = three_categories \<and> map fst labels = map slug three_categories \<and>
       length labels = length three_categories)
     (metadata_writes
        [LabelRequest (js ''invoice text'') three_labels, MetadataWrite (js ''doc1'') three_labels,
         LabelRequest (js ''payroll text'') three_labels,
         MetadataWrite (js ''doc2'') three_labels]) \<and>
   map (\<lambda>(key, content). (key, map (\<lambda>x. (slug x, x)) three_categories)) two_documents =
     [(js ''doc1'', three_labels), (js ''doc2'', three_labels)]"
proof -
  have s1: "slug (js ''Tax'') = js ''Tax''"
    by (simp add: slug_def replace_non_alnum_def js_def is_alnum_def)
  have s2: "slug (js ''Billing & Invoices'') = js ''Billing_Invoices''"
    by (simp add: slug_def replace_non_alnum_def js_def is_alnum_def)
  have s3: "slug (js ''HR'') = js ''HR''"
    by (simp add: slug_def replace_non_alnum_def js_def is_alnum_def)
  have labels: "candidate_labels three_categories = three_labels"
    by (simp add: candidate_labels_def three_categories_def three_labels_def s1 s2 s3)
  have candidates: "Object_fromEntries three_labels = three_labels"
    by (simp add: Object_fromEntries_def three_labels_def js_def)
  have run: "labelFilesFromCategories label_nothing update_ok three_categories two_documents =
     ([LabelRequest (js ''invoice text'') three_labels, MetadataWrite (js ''doc1'') three_labels,
       LabelRequest (js ''payroll text'') three_labels, MetadataWrite (js ''doc2'') three_labels],
      None)"
    unfolding two_documents_def
    by (simp add: label_nothing_def update_ok_def labels candidates Let_def)
       (simp add: three_labels_def)
  have ne: "three_categories \<noteq> []"
    by (simp add: three_categories_def)
  have spelled: "map (\<lambda>(key, content). (key, map (\<lambda>x. (slug x, x)) three_categories))
      two_documents = [(js ''doc1'', three_labels), (js ''doc2'', three_labels)]"
    using labels by (simp add: two_documents_def candidate_labels_def)
  note t = metadata_is_full_candidate_list [OF run]
  note w = t [THEN conjunct2, THEN conjunct2, THEN conjunct1, THEN mp, OF conjI [OF ne refl]]
  note full = t [THEN conjunct2, THEN conjunct2, THEN conjunct2]
  show ?thesis
    by (rule conjI [OF run conjI [OF ne conjI [OF w conjI [OF full spelled]]]])
qed

lemma colliding_slugs_not_distinct:
  assumes "i < j" "j < length categories" "slug (categories ! i) = slug (categories ! j)"
  shows "\<not> distinct (map fst (candidate_labels categories))"
proof -
  have m: "map fst (candidate_labels categories) = map slug categories"
    by (simp add: candidate_labels_def comp_def)
  from assms have "i < length (map slug categories)" "j < length (map slug categories)"
    "i \<noteq> j" "map slug categories ! i = map slug categories ! j"
    by simp_all
  then have "\<not> distinct (map slug categories)"
    using nth_eq_iff_index_eq by blast
  with m show ?thesis by simp
qed

lemma fewer_candidates:
  assumes "\<not> distinct (map fst es)"
  shows "length (Object_fromEntries es) < length es"
proof -
  have "card (set (map fst es)) \<le> length (map fst es)"
    by (rule card_length)
  moreover have "card (set (map fst es)) \<noteq> length (map fst es)"
    using assms card_distinct by blast
  ultimately show ?thesis
    by (simp add: length_Object_fromEntries)
qed

lemma candidate_of_slug:
  "map_of (Object_fromEntries (candidate_labels categories)) s =
     (if filter (\<lambda>x. slug x = s) categories = [] then None
      else Some (last (filter (\<lambda>x. slug x = s) categories)))"
  unfolding map_of_Object_fromEntries candidate_labels_def
  by (rule map_of_rev_last)

lemma distinct_Object_fromEntries: "distinct (map fst (Object_fromEntries es))"
  using fold_Map_set [of es "[]"] by (simp add: Object_fromEntries_def)

lemma list_all_prefix: "prefix xs ys \<Longrightarrow> list_all P ys \<Longrightarrow> list_all P xs"
  by (auto simp: prefix_def)

text \<open>
  Claim C10. When two distinct category names have the same slug, every labeling request
  carries the object built from the candidate list, which has fewer properties than there
  are categories and holds each slug once, the colliding slug with the last name that has
  it; every metadata write carries the whole candidate list, as long as the category list
  and with both colliding pairs in it.
\<close>

theorem slug_collision_fewer_candidates:
  assumes "i < j" and "j < length categories"
    and "categories ! i \<noteq> categories ! j"
    and "slug (categories ! i) = slug (categories ! j)"
    and "labelFilesFromCategories label updateFileMetadata categories fileContentCache =
           (events, status)"
  shows "list_all (\<lambda>(content, candidates).
             candidates = Object_fromEntries (candidate_labels categories) \<and>
             length candidates < length categories \<and>
             distinct (map fst candidates) \<and>
             map_of candidates (slug (categories ! j)) =
               Some (last (filter (\<lambda>x. slug x = slug (categories ! j)) categories)))
           (label_requests events) \<and>
         list_all (\<lambda>(key, labels).
             labels = candidate_labels categories \<and>
             length labels = length categories \<and>
             (slug (categories ! j), categories ! i) \<in> set labels \<and>
             (slug (categories ! j), categories ! j) \<in> set labels)
           (metadata_writes events) \<and>
         (status = None \<longrightarrow>
            map fst (label_requests events) = map snd fileContentCache \<and>
            map fst (metadata_writes events) = map fst fileContentCache)"
proof -
  let ?labels = "candidate_labels categories"
  let ?obj = "Object_fromEntries ?labels"
  let ?s = "slug (categories ! j)"
  from assms(1,2) have i: "i < length categories" by simp
  have ne: "categories \<noteq> []" using assms(2) by auto
  have fewer: "length ?obj < length categories"
    using fewer_candidates [OF colliding_slugs_not_distinct [OF assms(1,2,4)]]
    by (simp add: candidate_labels_def)
  have "categories ! j \<in> set (filter (\<lambda>x. slug x = ?s) categories)"
    using assms(2) by simp
  then have "filter (\<lambda>x. slug x = ?s) categories \<noteq> []"
    by (metis empty_iff empty_set)
  then have later: "map_of ?obj ?s = Some (last (filter (\<lambda>x. slug x = ?s) categories))"
    by (simp add: candidate_of_slug)
  have both: "(?s, categories ! i) \<in> set ?labels" "(?s, categories ! j) \<in> set ?labels"
    using i assms(2,4) by (auto simp: candidate_labels_def image_iff)
  have len: "length ?labels = length categories"
    by (simp add: candidate_labels_def)
  have "list_all (\<lambda>(content, candidates).
             candidates = ?obj \<and> length candidates < length categories \<and>
             distinct (map fst candidates) \<and>
             map_of candidates ?s = Some (last (filter (\<lambda>x. slug x = ?s) categories)))
          (map (\<lambda>(key, content). (content, ?obj)) fileContentCache)"
    using fewer later distinct_Object_fromEntries [of ?labels]
    by (simp add: list_all_iff split_beta)
  then have requests: "list_all (\<lambda>(content, candidates).
             candidates = ?obj \<and> length candidates < length categories \<and>
             distinct (map fst candidates) \<and>
             map_of candidates ?s = Some (last (filter (\<lambda>x. slug x = ?s) categories)))
          (label_requests events)"
    by (rule list_all_prefix [OF label_run_requests(1) [OF assms(5)]])
  have "list_all (\<lambda>(key, labels).
             labels = ?labels \<and> length labels = length categories \<and>
             (?s, categories ! i) \<in> set labels \<and> (?s, categories ! j) \<in> set labels)
          (map (\<lambda>(key, content). (key, ?labels)) fileContentCache)"
    using both len by (simp add: list_all_iff split_beta)
  moreover have "prefix (metadata_writes events)
      (map (\<lambda>(key, content). (key, ?labels)) fileContentCache)"
    using label_run_writes(1) [OF assms(5)] ne by simp
  ultimately have writes: "list_all (\<lambda>(key, labels).
             labels = ?labels \<and> length labels = length categories \<and>
             (?s, categories ! i) \<in> set labels \<and> (?s, categories ! j) \<in> set labels)
          (metadata_writes events)"
    by (rule list_all_prefix [rotated])
  have complete: "status = None \<longrightarrow>
            map fst (label_requests events) = map snd fileContentCache \<and>
            map fst (metadata_writes events) = map fst fileContentCache"
  proof
    assume st: "status = None"
    have "map fst (map (\<lambda>(key, content). (content, ?obj)) fileContentCache) =
          map snd fileContentCache"
      by (simp add: split_beta)
    moreover have "map fst (map (\<lambda>(key, content). (key, ?labels)) fileContentCache) =
          map fst fileContentCache"
      by (simp add: split_beta)
    ultimately show "map fst (label_requests events) = map snd fileContentCache \<and>
            map fst (metadata_writes events) = map fst fileContentCache"
      using label_run_requests(2) [OF assms(5) st] label_run_writes(2) [OF assms(5) st] ne
      by simp
  qed
  from requests writes complete show ?thesis by (intro conjI)
qed

definition colliding_categories :: "jsstring list" where
  "colliding_categories = [js ''A&B'', js ''A B'']"

definition colliding_events :: "label_event list" where
  "colliding_events =
     [LabelRequest (js ''text'') [(js ''A_B'', js ''A B'')],
      MetadataWrite (js ''doc1'') [(js ''A_B'', js ''A&B''), (js ''A_B'', js ''A B'')]]"

theorem slug_collision_fewer_candidates_witness:
  "(0::nat) < 1 \<and> 1 < length colliding_categories \<and>
   colliding_categories ! 0 \<noteq> colliding_categories ! 1 \<and>
   slug (colliding_categories ! 0) = slug (colliding_categories ! 1) \<and>
   labelFilesFromCategories label_nothing update_ok colliding_categories
     [(js ''doc1'', js ''text'')] = (colliding_events, None) \<and>
   list_all (\<lambda>(content, candidates).
       candidates = Object_fromEntries (candidate_labels colliding_categories) \<and>
       length candidates < length colliding_categories \<and>
       distinct (map fst candidates) \<and>
       map_of candidates (slug (colliding_categories ! 1)) =
         Some (last (filter (\<lambda>x. slug x = slug (colliding_categories ! 1)) colliding_categories)))
     (label_requests colliding_events) \<and>
   list_all (\<lambda>(key, labels).
       labels = candidate_labels colliding_categories \<and>
       length labels = length colliding_categories \<and>
       (slug (colliding_categories ! 1), colliding_categories ! 0) \<in> set labels \<and>
       (slug (colliding_categories ! 1), colliding_categories ! 1) \<in> set labels)
     (metadata_writes colliding_events) \<and>
   map fst (label_requests colliding_events) = map snd [(js ''doc1'', js ''text'')] \<and>
   map fst (metadata_writes colliding_events) = map fst [(js ''doc1'', js ''text'')]"
proof -
  have s0: "slug (js ''A&B'') = js ''A_B''"
    by (simp add: slug_def replace_non_alnum_def js_def is_alnum_def)
  have s1: "slug (js ''A B'') = js ''A_B''"
    by (simp add: slug_def replace_non_alnum_def js_def is_alnum_def)
  have h1: "(0::nat) < 1" by simp
  have h2: "1 < length colliding_categories"
    by (simp add: colliding_categories_def)
  have h3: "colliding_categories ! 0 \<noteq> colliding_categories ! 1"
    by (simp add: colliding_categories_def js_def)
  have h4: "slug (colliding_categories ! 0) = slug (colliding_categories ! 1)"
    by (simp add: colliding_categories_def s0 s1)
  have labels: "candidate_labels colliding_categories =
      [(js ''A_B'', js ''A&B''), (js ''A_B'', js ''A B'')]"
    by (simp add: candidate_labels_def colliding_categories_def s0 s1)
  have candidates: "Object_fromEntries [(js ''A_B'', js ''A&B''), (js ''A_B'', js ''A B'')] =
      [(js ''A_B'', js ''A B'')]"
    by (simp add: Object_fromEntries_def)
  have run: "labelFilesFromCategories label_nothing update_ok colliding_categories
     [(js ''doc1'', js ''text'')] = (colliding_events, None)"
    by (simp add: label_nothing_def update_ok_def labels candidates Let_def colliding_events_def)
  note t = slug_collision_fewer_candidates [OF h1 h2 h3 h4 run]
  note t3 = t [THEN conjunct2, THEN conjunct2, rule_format, OF refl]
  show ?thesis
    by (intro conjI h1 h2 h3 h4 run t [THEN conjunct1] t [THEN conjunct2, THEN conjunct1]
        t3 [THEN conjunct1] t3 [THEN conjunct2])
qed

section \<open>JSON\<close>

text \<open>
  \<^verbatim>\<open>saveCache\<close> writes every cache entry with \<^verbatim>\<open>JSON.stringify({ key, content })\<close> and
  \<^verbatim>\<open>restoreCache\<close> reads every line back with \<^verbatim>\<open>JSON.parse\<close>. Both are embedded on UTF-16 code
  units, following ECMA-262.
\<close>

abbreviation DQ :: jschar where "DQ \<equiv> 0x22"
abbreviation BS :: jschar where "BS \<equiv> 0x5C"

subsection \<open>JSON.stringify\<close>

text \<open>
  \<^verbatim>\<open>QuoteJSONString\<close>: the two-character escapes for backspace, tab, line feed, form feed,
  carriage return, the double quote and the backslash; a lower-case four-digit \<^verbatim>\<open>u\<close> escape for the
  other code units below U+0020 and for a surrogate that is not part of a pair; every other
  code unit as it is. The object \<^verbatim>\<open>{ key, content }\<close> has the properties \<^verbatim>\<open>key\<close> and \<^verbatim>\<open>content\<close>,
  in this order, and is written without white space.
\<close>

definition is_high_surrogate :: "jschar \<Rightarrow> bool" where
  "is_high_surrogate c = (0xD800 \<le> c \<and> c \<le> 0xDBFF)"

definition is_low_surrogate :: "jschar \<Rightarrow> bool" where
  "is_low_surrogate c = (0xDC00 \<le> c \<and> c \<le> 0xDFFF)"

definition hex_digit :: "nat \<Rightarrow> jschar" where
  "hex_digit n = (if n < 10 then 0x30 + of_nat n else 0x61 + of_nat (n - 10))"

definition UnicodeEscape :: "jschar \<Rightarrow> jsstring" where
  "UnicodeEscape c =
     [BS, 0x75, hex_digit (unat c div 4096 mod 16), hex_digit (unat c div 256 mod 16),
      hex_digit (unat c div 16 mod 16), hex_digit (unat c mod 16)]"

definition quote_unit :: "jschar \<Rightarrow> jsstring" where
  "quote_unit c =
     (if c = 0x08 then [BS, 0x62]
      else if c = 0x09 then [BS, 0x74]
      else if c = 0x0A then [BS, 0x6E]
      else if c = 0x0C then [BS, 0x66]
      else if c = 0x0D then [BS, 0x72]
      else if c = DQ then [BS, DQ]
      else if c = BS then [BS, BS]
      else if c < 0x20 \<or> is_high_surrogate c \<or> is_low_surrogate c then UnicodeEscape c
      else [c])"

fun quote_units :: "jsstring \<Rightarrow> jsstring" where
  "quote_units [] = []"
| "quote_units [c] = quote_unit c"
| "quote_units (c # d # cs) =
     (if is_high_surrogate c \<and> is_low_surrogate d then c # d # quote_units cs
      else quote_unit c @ quote_units (d # cs))"

definition QuoteJSONString :: "jsstring \<Rightarrow> jsstring" where
  "QuoteJSONString s = DQ # quote_units s @ [DQ]"

definition JSON_stringify_entry :: "jsstring \<Rightarrow> jsstring \<Rightarrow> jsstring" where
  "JSON_stringify_entry key content =
     0x7B # QuoteJSONString (js ''key'') @ 0x3A # QuoteJSONString key @
     0x2C # QuoteJSONString (js ''content'') @ 0x3A # QuoteJSONString content @ [0x7D]"

subsection \<open>JSON.parse\<close>

text \<open>
  A parsed value. A number keeps the text of its token: the cache only ever compares numbers,
  as keys of the \<^verbatim>\<open>Map\<close>.
\<close>

datatype json =
  JNull
| JBool bool
| JNumber jsstring
| JString jsstring
| JArray "json list"
| JObject "(jsstring \<times> json) list"

definition is_json_ws :: "jschar \<Rightarrow> bool" where
  "is_json_ws c = (c = 0x09 \<or> c = 0x0A \<or> c = 0x0D \<or> c = 0x20)"

definition skip_ws :: "jsstring \<Rightarrow> jsstring" where
  "skip_ws s = dropWhile is_json_ws s"

definition hex_value :: "jschar \<Rightarrow> nat option" where
  "hex_value c =
     (if 0x30 \<le> c \<and> c \<le> 0x39 then Some (unat c - 0x30)
      else if 0x61 \<le> c \<and> c \<le> 0x66 then Some (unat c - 0x61 + 10)
      else if 0x41 \<le> c \<and> c \<le> 0x46 then Some (unat c - 0x41 + 10)
      else None)"

definition hex4 :: "jschar \<Rightarrow> jschar \<Rightarrow> jschar \<Rightarrow> jschar \<Rightarrow> jschar option" where
  "hex4 a b c d =
     (case (hex_value a, hex_value b, hex_value c, hex_value d) of
        (Some h3, Some h2, Some h1, Some h0) \<Rightarrow>
          Some (of_nat (((h3 * 16 + h2) * 16 + h1) * 16 + h0))
      | _ \<Rightarrow> None)"

definition simple_escape :: "jschar \<Rightarrow> jschar option" where
  "simple_escape e =
     (if e = DQ then Some DQ
      else if e = BS then Some BS
      else if e = 0x2F then Some 0x2F
      else if e = 0x62 then Some 0x08
      else if e = 0x66 then Some 0x0C
      else if e = 0x6E then Some 0x0A
      else if e = 0x72 then Some 0x0D
      else if e = 0x74 then Some 0x09
      else None)"

fun parse_string_body :: "jsstring \<Rightarrow> (jsstring \<times> jsstring) option" where
  "parse_string_body [] = None"
| "parse_string_body (c # cs) =
     (if c = DQ then Some ([], cs)
      else if c = BS then
        (case cs of
           [] \<Rightarrow> None
         | e # es \<Rightarrow>
             if e = 0x75 then
               (case es of
                  h3 # h2 # h1 # h0 # rest \<Rightarrow>
                    (case hex4 h3 h2 h1 h0 of
                       None \<Rightarrow> None
                     | Some u \<Rightarrow>
                         (case parse_string_body rest of
                            None \<Rightarrow> None
                          | Some (str, r) \<Rightarrow> Some (u # str, r)))
                | _ \<Rightarrow> None)
             else
               (case simple_escape e of
                  None \<Rightarrow> None
                | Some u \<Rightarrow>
                    (case parse_string_body es of
                       None \<Rightarrow> None
                     | Some (str, r) \<Rightarrow> Some (u # str, r))))
      else if c < 0x20 then None
      else
        (case parse_string_body cs of
           None \<Rightarrow> None
         | Some (str, r) \<Rightarrow> Some (c # str, r)))"

definition is_digit :: "jschar \<Rightarrow> bool" where
  "is_digit c = (0x30 \<le> c \<and> c \<le> 0x39)"

definition parse_int_part :: "jsstring \<Rightarrow> (jsstring \<times> jsstring) option" where
  "parse_int_part s =
     (case s of
        [] \<Rightarrow> None
      | c # cs \<Rightarrow>
          if c = 0x30 then Some ([c], cs)
          else if is_digit c then Some (c # takeWhile is_digit cs, dropWhile is_digit cs)
          else None)"

definition parse_digits1 :: "jsstring \<Rightarrow> (jsstring \<times> jsstring) option" where
  "parse_digits1 s =
     (if takeWhile is_digit s = [] then None
      else Some (takeWhile is_digit s, dropWhile is_digit s))"

definition parse_frac :: "jsstring \<Rightarrow> (jsstring \<times> jsstring) option" where
  "parse_frac s =
     (case s of
        [] \<Rightarrow> Some ([], s)
      | c # cs \<Rightarrow>
          if c = 0x2E then
            (case parse_digits1 cs of None \<Rightarrow> None | Some (ds, r) \<Rightarrow> Some (c # ds, r))
          else Some ([], s))"

definition parse_exp :: "jsstring \<Rightarrow> (jsstring \<times> jsstring) option" where
  "parse_exp s =
     (case s of
        [] \<Rightarrow> Some ([], s)
      | c # cs \<Rightarrow>
          if c = 0x65 \<or> c = 0x45 then
            (case cs of
               [] \<Rightarrow> None
             | d # ds \<Rightarrow>
                 if d = 0x2B \<or> d = 0x2D then
                   (case parse_digits1 ds of
                      None \<Rightarrow> None
                    | Some (xs, r) \<Rightarrow> Some (c # d # xs, r))
                 else
                   (case parse_digits1 cs of
                      None \<Rightarrow> None
                    | Some (xs, r) \<Rightarrow> Some (c # xs, r)))
          else Some ([], s))"

definition parse_number :: "jsstring \<Rightarrow> (jsstring \<times> jsstring) option" where
  "parse_number s =
     (let (sign, s1) = (case s of
                          [] \<Rightarrow> ([], s)
                        | c # cs \<Rightarrow> if c = 0x2D then ([c], cs) else ([], s)) in
      case parse_int_part s1 of
        None \<Rightarrow> None
      | Some (ip, s2) \<Rightarrow>
          (case parse_frac s2 of
             None \<Rightarrow> None
           | Some (fp, s3) \<Rightarrow>
               (case parse_exp s3 of
                  None \<Rightarrow> None
                | Some (ep, s4) \<Rightarrow> Some (sign @ ip @ fp @ ep, s4))))"

fun strip_prefix :: "'a list \<Rightarrow> 'a list \<Rightarrow> 'a list option" where
  "strip_prefix [] s = Some s"
| "strip_prefix (p # ps) [] = None"
| "strip_prefix (p # ps) (c # cs) = (if p = c then strip_prefix ps cs else None)"

definition parse_literal :: "jsstring \<Rightarrow> (json \<times> jsstring) option" where
  "parse_literal s =
     (case strip_prefix (js ''true'') s of
        Some r \<Rightarrow> Some (JBool True, r)
      | None \<Rightarrow>
          (case strip_prefix (js ''false'') s of
             Some r \<Rightarrow> Some (JBool False, r)
           | None \<Rightarrow>
               (case strip_prefix (js ''null'') s of
                  Some r \<Rightarrow> Some (JNull, r)
                | None \<Rightarrow> None)))"

text \<open>
  The grammar of \<^verbatim>\<open>JSON.parse\<close>: white space is tab, line feed, carriage return and space; a
  string may not hold a raw code unit below U+0020; a number has no leading zero and no
  leading plus sign. The three mutually recursive functions take fuel, one unit less at every
  call. A call of \<^verbatim>\<open>parse_elements\<close> starts with a value on the same text, every other call is
  made on a text shorter than its caller's, so \<^verbatim>\<open>JSON_parse\<close> starts with twice the length of
  the text and two more. \<^verbatim>\<open>None\<close> is the \<^verbatim>\<open>SyntaxError\<close>.
\<close>

fun parse_value :: "nat \<Rightarrow> jsstring \<Rightarrow> (json \<times> jsstring) option"
  and parse_elements :: "nat \<Rightarrow> jsstring \<Rightarrow> (json list \<times> jsstring) option"
  and parse_members :: "nat \<Rightarrow> jsstring \<Rightarrow> ((jsstring \<times> json) list \<times> jsstring) option"
where
  "parse_value 0 s = None"
| "parse_value (Suc n) s =
     (case skip_ws s of
        [] \<Rightarrow> None
      | c # cs \<Rightarrow>
          if c = DQ then
            (case parse_string_body cs of
               None \<Rightarrow> None
             | Some (str, r) \<Rightarrow> Some (JString str, r))
          else if c = 0x7B then
            (case skip_ws cs of
               [] \<Rightarrow> None
             | d # ds \<Rightarrow>
                 if d = 0x7D then Some (JObject [], ds)
                 else (case parse_members n cs of
                         None \<Rightarrow> None
                       | Some (ms, r) \<Rightarrow> Some (JObject ms, r)))
          else if c = 0x5B then
            (case skip_ws cs of
               [] \<Rightarrow> None
             | d # ds \<Rightarrow>
                 if d = 0x5D then Some (JArray [], ds)
                 else (case parse_elements n cs of
                         None \<Rightarrow> None
                       | Some (vs, r) \<Rightarrow> Some (JArray vs, r)))
          else if c = 0x2D \<or> is_digit c then
            (case parse_number (c # cs) of
               None \<Rightarrow> None
             | Some (tok, r) \<Rightarrow> Some (JNumber tok, r))
          else parse_literal (c # cs))"
| "parse_elements 0 s = None"
| "parse_elements (Suc n) s =
     (case parse_value n s of
        None \<Rightarrow> None
      | Some (v, r) \<Rightarrow>
          (case skip_ws r of
             [] \<Rightarrow> None
           | c # cs \<Rightarrow>
               if c = 0x2C then
                 (case parse_elements n cs of
                    None \<Rightarrow> None
                  | Some (vs, r') \<Rightarrow> Some (v # vs, r'))
               else if c = 0x5D then Some ([v], cs)
               else None))"
| "parse_members 0 s = None"
| "parse_members (Suc n) s =
     (case skip_ws s of
        [] \<Rightarrow> None
      | c # cs \<Rightarrow>
          if c = DQ then
            (case parse_string_body cs of
               None \<Rightarrow> None
             | Some (k, r) \<Rightarrow>
                 (case skip_ws r of
                    [] \<Rightarrow> None
                  | c2 # r2 \<Rightarrow>
                      if c2 = 0x3A then
                        (case parse_value n r2 of
                           None \<Rightarrow> None
                         | Some (v, r3) \<Rightarrow>
                             (case skip_ws r3 of
                                [] \<Rightarrow> None
                              | c3 # r4 \<Rightarrow>
                                  if c3 = 0x2C then
                                    (case parse_members n r4 of
                                       None \<Rightarrow> None
                                     | Some (ms, r') \<Rightarrow> Some ((k, v) # ms, r'))
                                  else if c3 = 0x7D then Some ([(k, v)], r4)
                                  else None))
                      else None))
          else None)"

definition JSON_parse :: "jsstring \<Rightarrow> json option" where
  "JSON_parse text =
     (case parse_value (2 * length text + 2) text of
        None \<Rightarrow> None
      | Some (v, r) \<Rightarrow> if skip_ws r = [] then Some v else None)"

subsection \<open>Parsing what stringify wrote\<close>

lemma less_16_cases:
  fixes digit :: nat
  assumes "digit < 16"
  shows "digit \<le> 3 \<and> (digit = 0 \<or> digit = 1 \<or> digit = 2 \<or> digit = 3) \<or>
         4 \<le> digit \<and> digit \<le> 7 \<and> (digit = 4 \<or> digit = 5 \<or> digit = 6 \<or> digit = 7) \<or>
         8 \<le> digit \<and> digit \<le> 11 \<and> (digit = 8 \<or> digit = 9 \<or> digit = 10 \<or> digit = 11) \<or>
         12 \<le> digit \<and> (digit = 12 \<or> digit = 13 \<or> digit = 14 \<or> digit = 15)"
  using assms by presburger

lemma hex_value_hex_digit:
  assumes "n < 16"
  shows "hex_value (hex_digit n) = Some n"
  using less_16_cases [OF assms]
  by (elim disjE conjE) (simp_all add: hex_value_def hex_digit_def)

lemma hex_digits_value:
  fixes n :: nat
  shows "((n div 4096 mod 16 * 16 + n div 256 mod 16) * 16 + n div 16 mod 16) * 16 + n mod 16 =
         n mod 65536"
proof -
  have a: "n mod 65536 = n mod 16 + 16 * (n div 16 mod 4096)"
    using mod_mult2_eq [of n 16 4096] by simp
  have b: "n div 16 mod 4096 = n div 16 mod 16 + 16 * (n div 16 div 16 mod 256)"
    using mod_mult2_eq [of "n div 16" 16 256] by simp
  have c: "n div 16 div 16 mod 256 = n div 256 mod 16 + 16 * (n div 256 div 16 mod 16)"
    using mod_mult2_eq [of "n div 256" 16 16] by (simp add: div_mult2_eq [symmetric])
  have d: "n div 256 div 16 = n div 4096"
    by (simp add: div_mult2_eq [symmetric])
  show ?thesis unfolding a b c d by simp
qed

lemma hex4_UnicodeEscape:
  "hex4 (hex_digit (unat c div 4096 mod 16)) (hex_digit (unat c div 256 mod 16))
        (hex_digit (unat c div 16 mod 16)) (hex_digit (unat c mod 16)) = Some c"
proof -
  have "unat c < 65536"
    using unsigned_less [of c, where 'a = nat] by simp
  then have "unat c mod 65536 = unat c" by simp
  then have v: "((unat c div 4096 mod 16 * 16 + unat c div 256 mod 16) * 16 +
      unat c div 16 mod 16) * 16 + unat c mod 16 = unat c"
    by (simp only: hex_digits_value)
  have "hex4 (hex_digit (unat c div 4096 mod 16)) (hex_digit (unat c div 256 mod 16))
        (hex_digit (unat c div 16 mod 16)) (hex_digit (unat c mod 16)) =
        Some (of_nat (((unat c div 4096 mod 16 * 16 + unat c div 256 mod 16) * 16 +
      unat c div 16 mod 16) * 16 + unat c mod 16))"
    unfolding hex4_def by (simp only: hex_value_hex_digit mod_less_divisor zero_less_numeral
        prod.case option.case)
  also have "\<dots> = Some c"
    unfolding v by simp
  finally show ?thesis .
qed

lemma parse_UnicodeEscape:
  "parse_string_body t = Some (str, r) \<Longrightarrow>
   parse_string_body (UnicodeEscape c @ t) = Some (c # str, r)"
  by (simp add: UnicodeEscape_def hex4_UnicodeEscape)

lemma parse_quote_unit:
  assumes "parse_string_body t = Some (str, r)"
  shows "parse_string_body (quote_unit c @ t) = Some (c # str, r)"
proof (cases "c = 0x08 \<or> c = 0x09 \<or> c = 0x0A \<or> c = 0x0C \<or> c = 0x0D \<or> c = DQ \<or> c = BS")
  case True
  with assms show ?thesis
    by (elim disjE) (simp_all add: quote_unit_def simple_escape_def)
next
  case plain: False
  show ?thesis
  proof (cases "c < 0x20 \<or> is_high_surrogate c \<or> is_low_surrogate c")
    case True
    with plain have "quote_unit c = UnicodeEscape c"
      by (simp add: quote_unit_def)
    with assms show ?thesis by (simp add: parse_UnicodeEscape)
  next
    case False
    with plain have "quote_unit c = [c]"
      by (simp add: quote_unit_def)
    with assms plain False show ?thesis by simp
  qed
qed

lemma high_surrogate_literal:
  "is_high_surrogate c \<Longrightarrow> c \<noteq> DQ \<and> c \<noteq> BS \<and> \<not> c < 0x20"
  unfolding is_high_surrogate_def by (auto simp: word_le_nat_alt word_less_nat_alt)

lemma low_surrogate_literal:
  "is_low_surrogate c \<Longrightarrow> c \<noteq> DQ \<and> c \<noteq> BS \<and> \<not> c < 0x20"
  unfolding is_low_surrogate_def by (auto simp: word_le_nat_alt word_less_nat_alt)

lemma parse_quote_units:
  "parse_string_body (quote_units s @ DQ # rest) = Some (s, rest)"
proof (induction s rule: quote_units.induct)
  case 1
  show ?case by simp
next
  case (2 c)
  have "parse_string_body (DQ # rest) = Some ([], rest)" by simp
  from parse_quote_unit [OF this] show ?case by simp
next
  case (3 c d cs)
  show ?case
  proof (cases "is_high_surrogate c \<and> is_low_surrogate d")
    case True
    then have q: "quote_units (c # d # cs) = c # d # quote_units cs" by simp
    from 3(1) True
    have ih: "parse_string_body (quote_units cs @ DQ # rest) = Some (cs, rest)" by simp
    from True high_surrogate_literal [of c] low_surrogate_literal [of d]
    have "c \<noteq> DQ" "c \<noteq> BS" "\<not> c < 0x20" "d \<noteq> DQ" "d \<noteq> BS" "\<not> d < 0x20"
      by simp_all
    then show ?thesis
      unfolding q by (simp add: ih)
  next
    case False
    then have q: "quote_units (c # d # cs) = quote_unit c @ quote_units (d # cs)"
      by auto
    from 3(2) False
    have ih: "parse_string_body (quote_units (d # cs) @ DQ # rest) = Some (d # cs, rest)"
      by blast
    show ?thesis
      unfolding q append_assoc by (rule parse_quote_unit [OF ih])
  qed
qed

lemma parse_QuoteJSONString:
  "parse_string_body (tl (QuoteJSONString s) @ rest) = Some (s, rest)"
  by (simp add: QuoteJSONString_def parse_quote_units)

lemma parse_value_string:
  "parse_value (Suc n) (DQ # quote_units s @ DQ # rest) = Some (JString s, rest)"
  by (simp add: skip_ws_def is_json_ws_def parse_quote_units)

lemma parse_members_last:
  "parse_members (Suc (Suc n))
     (DQ # quote_units k @ DQ # 0x3A # DQ # quote_units v @ DQ # 0x7D # rest) =
   Some ([(k, JString v)], rest)"
  by (subst parse_members.simps(2))
     (simp add: skip_ws_def is_json_ws_def parse_quote_units parse_value_string
        del: parse_value.simps parse_members.simps)

lemma parse_members_entry:
  "parse_members (Suc (Suc (Suc n)))
     (DQ # quote_units k1 @ DQ # 0x3A # DQ # quote_units v1 @ DQ # 0x2C #
      DQ # quote_units k2 @ DQ # 0x3A # DQ # quote_units v2 @ DQ # 0x7D # rest) =
   Some ([(k1, JString v1), (k2, JString v2)], rest)"
  by (subst parse_members.simps(2))
     (simp add: skip_ws_def is_json_ws_def parse_quote_units parse_value_string
        parse_members_last del: parse_value.simps parse_members.simps)

lemma stringify_entry_nonempty: "JSON_stringify_entry k v \<noteq> []"
  by (simp add: JSON_stringify_entry_def)

lemma parse_value_entry:
  "parse_value (Suc (Suc (Suc (Suc n)))) (JSON_stringify_entry k v) =
   Some (JObject [(js ''key'', JString k), (js ''content'', JString v)], [])"
proof -
  have shape: "JSON_stringify_entry k v =
      0x7B # DQ # quote_units (js ''key'') @ DQ # 0x3A # DQ # quote_units k @ DQ # 0x2C #
      DQ # quote_units (js ''content'') @ DQ # 0x3A # DQ # quote_units v @ DQ # 0x7D # []"
    by (simp add: JSON_stringify_entry_def QuoteJSONString_def)
  have "parse_value (Suc (Suc (Suc (Suc n))))
      (0x7B # DQ # quote_units (js ''key'') @ DQ # 0x3A # DQ # quote_units k @ DQ # 0x2C #
       DQ # quote_units (js ''content'') @ DQ # 0x3A # DQ # quote_units v @ DQ # 0x7D # []) =
      Some (JObject [(js ''key'', JString k), (js ''content'', JString v)], [])"
    by (subst parse_value.simps(2))
       (simp add: skip_ws_def is_json_ws_def parse_members_entry
          del: parse_value.simps parse_members.simps)
  then show ?thesis
    by (simp only: shape)
qed

lemma JSON_parse_stringify_entry:
  "JSON_parse (JSON_stringify_entry k v) =
   Some (JObject [(js ''key'', JString k), (js ''content'', JString v)])"
proof -
  obtain l where "length (JSON_stringify_entry k v) = Suc l"
    using stringify_entry_nonempty [of k v] by (cases "JSON_stringify_entry k v") auto
  then have fuel: "2 * length (JSON_stringify_entry k v) + 2 = Suc (Suc (Suc (Suc (2 * l))))"
    by simp
  show ?thesis
    unfolding JSON_parse_def fuel parse_value_entry by (simp add: skip_ws_def)
qed

section \<open>Cache Store\<close>

text \<open>
  \<^verbatim>\<open>saveCache\<close> joins the serialized entries with line feeds and uploads the text;
  \<^verbatim>\<open>uploadFile\<close> is the blob store, which may reject.
\<close>

definition fileContent_of :: "cache \<Rightarrow> jsstring" where
  "fileContent_of fileContentCache =
     join [LF] (map (\<lambda>(key, content). JSON_stringify_entry key content) fileContentCache)"

definition saveCache :: "(jsstring \<Rightarrow> error option) \<Rightarrow> cache \<Rightarrow> error option" where
  "saveCache uploadFile fileContentCache = uploadFile (fileContent_of fileContentCache)"

text \<open>
  \<^verbatim>\<open>restoreCache\<close> stores whatever \<^verbatim>\<open>const { key, content } = JSON.parse(line)\<close> yields:
  destructuring \<^verbatim>\<open>null\<close> throws a \<^verbatim>\<open>TypeError\<close>, a missing property is \<^verbatim>\<open>undefined\<close>, and of a
  repeated property the last one counts. \<^verbatim>\<open>Map.prototype.set\<close> compares keys with
  SameValueZero: strings by their code units, objects and arrays by identity (two parsed
  ones are never the same), numbers by their value, which \<^verbatim>\<open>same_number\<close> decides on the tokens.
\<close>

datatype jsval = Undefined | Value json

definition get_property :: "(jsstring \<times> json) list \<Rightarrow> jsstring \<Rightarrow> jsval" where
  "get_property members k =
     (case map_of (rev members) k of None \<Rightarrow> Undefined | Some v \<Rightarrow> Value v)"

fun destructure_entry :: "json \<Rightarrow> error + (jsval \<times> jsval)" where
  "destructure_entry JNull = Inl TypeError"
| "destructure_entry (JObject members) =
     Inr (get_property members (js ''key''), get_property members (js ''content''))"
| "destructure_entry (JBool b) = Inr (Undefined, Undefined)"
| "destructure_entry (JNumber n) = Inr (Undefined, Undefined)"
| "destructure_entry (JString s) = Inr (Undefined, Undefined)"
| "destructure_entry (JArray vs) = Inr (Undefined, Undefined)"

fun SameValueZero :: "(jsstring \<Rightarrow> jsstring \<Rightarrow> bool) \<Rightarrow> jsval \<Rightarrow> jsval \<Rightarrow> bool" where
  "SameValueZero same_number Undefined Undefined = True"
| "SameValueZero same_number (Value JNull) (Value JNull) = True"
| "SameValueZero same_number (Value (JBool a)) (Value (JBool b)) = (a = b)"
| "SameValueZero same_number (Value (JString a)) (Value (JString b)) = (a = b)"
| "SameValueZero same_number (Value (JNumber a)) (Value (JNumber b)) = same_number a b"
| "SameValueZero same_number x y = False"

fun Map_set_by :: "('k \<Rightarrow> 'k \<Rightarrow> bool) \<Rightarrow> ('k \<times> 'v) list \<Rightarrow> 'k \<Rightarrow> 'v \<Rightarrow> ('k \<times> 'v) list" where
  "Map_set_by same [] k v = [(k, v)]"
| "Map_set_by same ((k', v') # m) k v =
     (if same k' k then (k', v) # m else (k', v') # Map_set_by same m k v)"

text \<open>
  The loop over the lines stops at the first line that throws; the entries stored before it
  stay in the \<^verbatim>\<open>Map\<close>. An empty line is skipped.
\<close>

definition parse_line :: "jsstring \<Rightarrow> error + (jsval \<times> jsval)" where
  "parse_line line =
     (case JSON_parse line of
        None \<Rightarrow> Inl SyntaxError
      | Some v \<Rightarrow> destructure_entry v)"

fun restore_lines ::
  "(jsstring \<Rightarrow> jsstring \<Rightarrow> bool) \<Rightarrow> jsstring list \<Rightarrow> (jsval \<times> jsval) list \<Rightarrow>
   (jsval \<times> jsval) list \<times> error option" where
  "restore_lines same_number [] m = (m, None)"
| "restore_lines same_number (line # lines) m =
     (if line \<noteq> [] then
        (case parse_line line of
           Inl e \<Rightarrow> (m, Some e)
         | Inr (key, content) \<Rightarrow>
             restore_lines same_number lines
               (Map_set_by (SameValueZero same_number) m key content))
      else restore_lines same_number lines m)"

text \<open>
  What \<^verbatim>\<open>client.getFile\<close> and \<^verbatim>\<open>fetch\<close> come back with: either of them rejects, or the text of the
  blob arrives. \<^verbatim>\<open>restoreCache_try\<close> is the body of the \<^verbatim>\<open>try\<close> block, \<^verbatim>\<open>restoreCache\<close> adds the empty
  \<^verbatim>\<open>catch\<close>, which discards whatever was thrown.
\<close>

datatype fetch_outcome = GetFileRejected | FetchRejected | Body jsstring

definition restoreCache_try ::
  "(jsstring \<Rightarrow> jsstring \<Rightarrow> bool) \<Rightarrow> fetch_outcome \<Rightarrow> (jsval \<times> jsval) list \<Rightarrow>
   (jsval \<times> jsval) list \<times> error option" where
  "restoreCache_try same_number outcome m =
     (case outcome of
        GetFileRejected \<Rightarrow> (m, Some ServiceError)
      | FetchRejected \<Rightarrow> (m, Some ServiceError)
      | Body x \<Rightarrow> restore_lines same_number (split_on LF x) m)"

definition restoreCache ::
  "(jsstring \<Rightarrow> jsstring \<Rightarrow> bool) \<Rightarrow> fetch_outcome \<Rightarrow> (jsval \<times> jsval) list \<Rightarrow>
   (jsval \<times> jsval) list \<times> error option" where
  "restoreCache same_number outcome m =
     (case restoreCache_try same_number outcome m of
        (m', thrown) \<Rightarrow> (m', None))"

definition as_values :: "cache \<Rightarrow> (jsval \<times> jsval) list" where
  "as_values c = map (\<lambda>(key, content). (Value (JString key), Value (JString content))) c"

subsection \<open>One record per line\<close>

lemma hex_digit_not_LF:
  assumes "n < 16"
  shows "hex_digit n \<noteq> LF"
  using less_16_cases [OF assms] by (elim disjE conjE) (simp_all add: hex_digit_def)

lemma quote_unit_no_LF: "LF \<notin> set (quote_unit c)"
  by (simp add: quote_unit_def UnicodeEscape_def hex_digit_not_LF)

lemma quote_units_no_LF: "LF \<notin> set (quote_units s)"
proof (induction s rule: quote_units.induct)
  case 1
  show ?case by simp
next
  case (2 c)
  show ?case by (simp add: quote_unit_no_LF)
next
  case (3 c d cs)
  show ?case
  proof (cases "is_high_surrogate c \<and> is_low_surrogate d")
    case True
    then have "c \<noteq> LF" "d \<noteq> LF"
      by (auto simp: is_high_surrogate_def is_low_surrogate_def)
    with 3(1) True show ?thesis by simp
  next
    case False
    then have "quote_units (c # d # cs) = quote_unit c @ quote_units (d # cs)"
      by auto
    moreover from 3(2) False have "LF \<notin> set (quote_units (d # cs))" by blast
    ultimately show ?thesis by (simp add: quote_unit_no_LF)
  qed
qed

lemma stringify_entry_no_LF: "LF \<notin> set (JSON_stringify_entry k v)"
  by (simp add: JSON_stringify_entry_def QuoteJSONString_def quote_units_no_LF)

lemma split_on_no_sep: "sep \<notin> set l \<Longrightarrow> split_on sep l = [l]"
  by (induction l) auto

lemma split_on_append: "sep \<notin> set l \<Longrightarrow> split_on sep (l @ sep # r) = l # split_on sep r"
  by (induction l) auto

lemma split_on_join:
  "ls \<noteq> [] \<Longrightarrow> \<forall>l \<in> set ls. sep \<notin> set l \<Longrightarrow> split_on sep (join [sep] ls) = ls"
proof (induction ls rule: induct_list012)
  case 1
  then show ?case by simp
next
  case (2 x)
  then show ?case by (simp add: split_on_no_sep)
next
  case (3 x y zs)
  then show ?case by (simp add: split_on_append)
qed

lemma lines_of_fileContent:
  "c \<noteq> [] \<Longrightarrow>
   split_on LF (fileContent_of c) = map (\<lambda>(key, content). JSON_stringify_entry key content) c"
  unfolding fileContent_of_def
  by (rule split_on_join) (auto simp: stringify_entry_no_LF)

lemma lines_of_empty: "split_on LF (fileContent_of []) = [[]]"
  by (simp add: fileContent_of_def)

subsection \<open>Restoring what was saved\<close>

lemma parse_line_stringify_entry:
  "parse_line (JSON_stringify_entry k v) = Inr (Value (JString k), Value (JString v))"
proof -
  have "js ''key'' \<noteq> js ''content''" by (simp add: js_def)
  then show ?thesis
    by (simp add: parse_line_def JSON_parse_stringify_entry get_property_def)
qed

lemma Map_set_by_as_values:
  "Map_set_by (SameValueZero same_number) (as_values m) (Value (JString k)) (Value (JString v)) =
   as_values (Map_set m k v)"
  by (induction m) (auto simp: as_values_def)

lemma restore_lines_entries:
  "restore_lines same_number (map (\<lambda>(key, content). JSON_stringify_entry key content) es)
     (as_values m) =
   (as_values (fold (\<lambda>(key, content) m. Map_set m key content) es m), None)"
proof (induction es arbitrary: m)
  case Nil
  show ?case by simp
next
  case (Cons e es)
  obtain k v where e: "e = (k, v)" by (cases e)
  show ?case
    by (simp add: e stringify_entry_nonempty parse_line_stringify_entry Map_set_by_as_values Cons)
qed

lemma Map_set_fresh: "k \<notin> fst ` set m \<Longrightarrow> Map_set m k v = m @ [(k, v)]"
  by (induction m) auto

lemma fold_Map_set_distinct:
  "distinct (map fst (m @ es)) \<Longrightarrow> fold (\<lambda>(key, content) m. Map_set m key content) es m = m @ es"
proof (induction es arbitrary: m)
  case Nil
  show ?case by simp
next
  case (Cons e es)
  obtain k v where e: "e = (k, v)" by (cases e)
  from Cons.prems have fresh: "k \<notin> fst ` set m" and d: "distinct (map fst ((m @ [(k, v)]) @ es))"
    by (auto simp: e)
  from Cons.IH [OF d] show ?case
    by (simp add: e Map_set_fresh [OF fresh])
qed

lemma restoreCache_fileContent:
  assumes "distinct (map fst c)"
  shows "restoreCache same_number (Body (fileContent_of c)) [] = (as_values c, None)"
proof (cases "c = []")
  case True
  then show ?thesis
    by (simp add: restoreCache_def restoreCache_try_def lines_of_empty as_values_def)
next
  case False
  have "restore_lines same_number (split_on LF (fileContent_of c)) (as_values []) =
        (as_values (fold (\<lambda>(key, content) m. Map_set m key content) c []), None)"
    unfolding lines_of_fileContent [OF False] by (rule restore_lines_entries)
  moreover have "fold (\<lambda>(key, content) m. Map_set m key content) c [] = [] @ c"
    by (rule fold_Map_set_distinct) (simp add: assms)
  ultimately show ?thesis
    by (simp add: restoreCache_def restoreCache_try_def as_values_def)
qed

definition store_line ::
  "(jsstring \<Rightarrow> jsstring \<Rightarrow> bool) \<Rightarrow> jsstring \<Rightarrow> (jsval \<times> jsval) list \<Rightarrow> (jsval \<times> jsval) list" where
  "store_line same_number line m =
     (case parse_line line of
        Inl e \<Rightarrow> m
      | Inr (key, content) \<Rightarrow> Map_set_by (SameValueZero same_number) m key content)"

definition readable_lines :: "jsstring \<Rightarrow> jsstring list" where
  "readable_lines x =
     takeWhile (\<lambda>line. \<not> isl (parse_line line)) (filter (\<lambda>line. line \<noteq> []) (split_on LF x))"

definition partly_corrupt_blob :: jsstring where
  "partly_corrupt_blob = JSON_stringify_entry (js ''a'') (js ''b'') @ [LF] @ js ''{''"

lemma restore_lines_readable:
  "fst (restore_lines same_number ls m) =
   fold (store_line same_number)
     (takeWhile (\<lambda>line. \<not> isl (parse_line line)) (filter (\<lambda>line. line \<noteq> []) ls)) m"
proof (induction ls arbitrary: m)
  case Nil
  show ?case by simp
next
  case (Cons l ls)
  show ?case
  proof (cases "l = []")
    case True
    with Cons show ?thesis by simp
  next
    case False
    show ?thesis
    proof (cases "parse_line l")
      case (Inl e)
      with False show ?thesis by simp
    next
      case (Inr entry)
      obtain k v where "entry = (k, v)" by (cases entry)
      with Inr False Cons show ?thesis by (simp add: store_line_def)
    qed
  qed
qed

lemma snd_restoreCache: "snd (restoreCache same_number outcome m) = None"
  by (simp add: restoreCache_def split: prod.splits)

lemma restoreCache_rejected:
  "fst (restoreCache same_number GetFileRejected m) = m"
  "fst (restoreCache same_number FetchRejected m) = m"
  by (simp_all add: restoreCache_def restoreCache_try_def)

lemma restoreCache_body:
  "fst (restoreCache same_number (Body x) m) =
   fold (store_line same_number) (readable_lines x) m"
proof -
  have "fst (restoreCache same_number (Body x) m) =
        fst (restore_lines same_number (split_on LF x) m)"
    by (simp add: restoreCache_def restoreCache_try_def split: prod.splits)
  then show ?thesis
    by (simp add: restore_lines_readable readable_lines_def)
qed

lemma JSON_parse_brace: "JSON_parse (js ''{'') = None"
proof -
  have "parse_value (Suc n) [0x7B] = None" for n
    by (simp add: skip_ws_def is_json_ws_def)
  from this [of 3] show ?thesis
    by (simp add: JSON_parse_def js_def eval_nat_numeral del: parse_value.simps)
qed

lemma lines_of_partly_corrupt_blob:
  "split_on LF partly_corrupt_blob = [JSON_stringify_entry (js ''a'') (js ''b''), js ''{'']"
proof -
  have "LF \<notin> set (js ''{'')" by (simp add: js_def)
  then have "split_on LF (js ''{'') = [js ''{'']" by (rule split_on_no_sep)
  then show ?thesis
    by (simp add: partly_corrupt_blob_def split_on_append [OF stringify_entry_no_LF])
qed

lemma restore_partly_corrupt_blob:
  "restoreCache_try same_number (Body partly_corrupt_blob) [] =
     ([(Value (JString (js ''a'')), Value (JString (js ''b'')))], Some SyntaxError)"
proof -
  have "js ''{'' \<noteq> []" by (simp add: js_def)
  moreover have "parse_line (js ''{'') = Inl SyntaxError"
    by (simp add: parse_line_def JSON_parse_brace)
  ultimately show ?thesis
    by (simp add: restoreCache_try_def lines_of_partly_corrupt_blob stringify_entry_nonempty
        parse_line_stringify_entry)
qed

lemma fileContent_of_spelled:
  "fileContent_of c =
     (case c of
        [] \<Rightarrow> []
      | (key, content) # es \<Rightarrow>
          JSON_stringify_entry key content @
          concat (map (\<lambda>(key, content). LF # JSON_stringify_entry key content) es))"
proof (cases c)
  case Nil
  then show ?thesis by (simp add: fileContent_of_def)
next
  case (Cons e es)
  obtain k v where e: "e = (k, v)" by (cases e)
  have "concat (map ((\<lambda>y. [LF] @ y) \<circ> (\<lambda>(key, content). JSON_stringify_entry key content)) es) =
        concat (map (\<lambda>(key, content). LF # JSON_stringify_entry key content) es)"
    by (induction es) (simp_all add: split_beta)
  then show ?thesis
    by (simp add: fileContent_of_def Cons e join_concat)
qed

lemma stringify_entry_example:
  \<open>JSON_stringify_entry (js ''a'') [LF, DQ, BS, 0x01, 0x41] =
     js ''{"key":"a","content":"'' @ [BS, 0x6E, BS, DQ, BS, BS, BS, 0x75, 0x30, 0x30, 0x30, 0x31, 0x41] @
     js ''"}''\<close>
  by (simp add: JSON_stringify_entry_def QuoteJSONString_def quote_unit_def UnicodeEscape_def
      hex_digit_def js_def is_high_surrogate_def is_low_surrogate_def)

text \<open>
  Claim C7. \<^verbatim>\<open>saveCache\<close> uploads the entries of the cache, one record
  \<^verbatim>\<open>{"key":...,"content":...}\<close> per entry in the order of the \<^verbatim>\<open>Map\<close>, separated by single line
  feeds. No record contains a line feed, so splitting the text of a non-empty cache at the
  line feeds gives back exactly the records, and \<^verbatim>\<open>JSON.parse\<close> reads every record as the object
  with the two string properties it was written from. \<^verbatim>\<open>restoreCache\<close>, run on exactly that
  text from an empty \<^verbatim>\<open>Map\<close>, ends with precisely the same (key, content) entries, in the same
  order, and raises nothing. The keys of a \<^verbatim>\<open>Map\<close> are distinct. For instance, the content made
  of a line feed, a double quote, a backslash, the code unit 1 and the letter A is written
  as the two-character escapes of the first three, the six-character escape \<^verbatim>\<open>u0001\<close> after
  a backslash, and \<^verbatim>\<open>A\<close>.
\<close>

theorem persist_restore_round_trip:
  assumes \<open>distinct (map fst fileContentCache)\<close>
  shows \<open>saveCache uploadFile fileContentCache = uploadFile (fileContent_of fileContentCache) \<and>
         fileContent_of fileContentCache =
           (case fileContentCache of
              [] \<Rightarrow> []
            | (key, content) # es \<Rightarrow>
                JSON_stringify_entry key content @
                concat (map (\<lambda>(key, content). LF # JSON_stringify_entry key content) es)) \<and>
         (fileContentCache \<noteq> [] \<longrightarrow>
            split_on LF (fileContent_of fileContentCache) =
              map (\<lambda>(key, content). JSON_stringify_entry key content) fileContentCache) \<and>
         list_all (\<lambda>(key, content).
             LF \<notin> set (JSON_stringify_entry key content) \<and>
             JSON_parse (JSON_stringify_entry key content) =
               Some (JObject [(js ''key'', JString key), (js ''content'', JString content)]))
           fileContentCache \<and>
         restoreCache same_number (Body (fileContent_of fileContentCache)) [] =
           (map (\<lambda>(key, content). (Value (JString key), Value (JString content)))
              fileContentCache, None) \<and>
         JSON_stringify_entry (js ''a'') [LF, DQ, BS, 0x01, 0x41] =
           js ''{"key":"a","content":"'' @
           [BS, 0x6E, BS, DQ, BS, BS, BS, 0x75, 0x30, 0x30, 0x30, 0x31, 0x41] @ js ''"}''\<close>
proof -
  have uploaded: "saveCache uploadFile fileContentCache =
      uploadFile (fileContent_of fileContentCache)"
    by (simp add: saveCache_def)
  have lines: "fileContentCache \<noteq> [] \<longrightarrow>
            split_on LF (fileContent_of fileContentCache) =
              map (\<lambda>(key, content). JSON_stringify_entry key content) fileContentCache"
    by (simp add: lines_of_fileContent)
  have records: "list_all (\<lambda>(key, content).
             LF \<notin> set (JSON_stringify_entry key content) \<and>
             JSON_parse (JSON_stringify_entry key content) =
               Some (JObject [(js ''key'', JString key), (js ''content'', JString content)]))
           fileContentCache"
    by (simp add: list_all_iff split_beta stringify_entry_no_LF JSON_parse_stringify_entry)
  note restored = restoreCache_fileContent [OF assms, of same_number, unfolded as_values_def]
  from uploaded fileContent_of_spelled [of fileContentCache] lines records restored
    stringify_entry_example
  show ?thesis
    by (intro conjI)
qed

theorem persist_restore_round_trip_witness:
  "distinct (map fst [(js ''a'', js ''b''), (js ''c'', [LF, DQ])]) \<and>
   [(js ''a'', js ''b''), (js ''c'', [LF, DQ])] \<noteq> [] \<and>
   split_on LF (fileContent_of [(js ''a'', js ''b''), (js ''c'', [LF, DQ])]) =
     map (\<lambda>(key, content). JSON_stringify_entry key content)
       [(js ''a'', js ''b''), (js ''c'', [LF, DQ])] \<and>
   restoreCache (\<lambda>a b. a = b)
     (Body (fileContent_of [(js ''a'', js ''b''), (js ''c'', [LF, DQ])])) [] =
     (map (\<lambda>(key, content). (Value (JString key), Value (JString content)))
        [(js ''a'', js ''b''), (js ''c'', [LF, DQ])], None)"
proof -
  have d: "distinct (map fst [(js ''a'', js ''b''), (js ''c'', [LF, DQ])])"
    by (simp add: js_def)
  have ne: "[(js ''a'', js ''b''), (js ''c'', [LF, DQ])] \<noteq> []"
    by simp
  note t = persist_restore_round_trip [OF d, of _ "\<lambda>a b. a = b"]
  note l = t [THEN conjunct2, THEN conjunct2, THEN conjunct1, THEN mp, OF ne]
  note r = t [THEN conjunct2, THEN conjunct2, THEN conjunct2, THEN conjunct2, THEN conjunct1]
  show ?thesis
    by (rule conjI [OF d conjI [OF ne conjI [OF l r]]])
qed

text \<open>
  Claim C8, as stated, fails in its second half: an unreadable blob does not always leave the
  cache empty. When the first line of the blob is a record and the second one is the single
  character \<^verbatim>\<open>{\<close>, which \<^verbatim>\<open>JSON.parse\<close> rejects, the entry of the first line is already in the
  \<^verbatim>\<open>Map\<close> when the error is caught, and it stays there.
\<close>

theorem restore_keeps_entries_before_corrupt_line:
  "JSON_parse (js ''{'') = None \<and>
   split_on LF partly_corrupt_blob = [JSON_stringify_entry (js ''a'') (js ''b''), js ''{''] \<and>
   restoreCache (\<lambda>a b. a = b) (Body partly_corrupt_blob) [] =
     ([(Value (JString (js ''a'')), Value (JString (js ''b'')))], None)"
  by (simp add: JSON_parse_brace lines_of_partly_corrupt_blob restoreCache_def
      restore_partly_corrupt_blob)

text \<open>
  Claim C8, amended. \<^verbatim>\<open>restoreCache\<close> never raises, whatever the outcome of the external
  fetch. When \<^verbatim>\<open>getFile\<close> or \<^verbatim>\<open>fetch\<close> rejects, the cache is left as it was (empty at start-up).
  When a text arrives, the cache receives the entries of the non-empty lines that come
  before the first line that \<^verbatim>\<open>JSON.parse\<close> or the destructuring rejects, and nothing after it;
  so it is left as it was exactly when the first non-empty line is unreadable.
\<close>

theorem restoreCache_swallows_errors:
  "snd (restoreCache same_number outcome m) = None \<and>
   (outcome = GetFileRejected \<or> outcome = FetchRejected \<longrightarrow>
      fst (restoreCache same_number outcome m) = m) \<and>
   (\<forall>x. outcome = Body x \<longrightarrow>
      fst (restoreCache same_number outcome m) =
        fold (\<lambda>line m. case parse_line line of
                           Inl e \<Rightarrow> m
                         | Inr (key, content) \<Rightarrow>
                             Map_set_by (SameValueZero same_number) m key content)
          (takeWhile (\<lambda>line. \<not> isl (parse_line line))
             (filter (\<lambda>line. line \<noteq> []) (split_on LF x))) m)"
proof -
  have rejected: "outcome = GetFileRejected \<or> outcome = FetchRejected \<longrightarrow>
      fst (restoreCache same_number outcome m) = m"
    using restoreCache_rejected [of same_number m] by auto
  have body: "\<forall>x. outcome = Body x \<longrightarrow>
      fst (restoreCache same_number outcome m) =
        fold (\<lambda>line m. case parse_line line of
                           Inl e \<Rightarrow> m
                         | Inr (key, content) \<Rightarrow>
                             Map_set_by (SameValueZero same_number) m key content)
          (takeWhile (\<lambda>line. \<not> isl (parse_line line))
             (filter (\<lambda>line. line \<noteq> []) (split_on LF x))) m"
  proof (intro allI impI)
    fix x
    assume "outcome = Body x"
    then show "fst (restoreCache same_number outcome m) =
        fold (\<lambda>line m. case parse_line line of
                           Inl e \<Rightarrow> m
                         | Inr (key, content) \<Rightarrow>
                             Map_set_by (SameValueZero same_number) m key content)
          (takeWhile (\<lambda>line. \<not> isl (parse_line line))
             (filter (\<lambda>line. line \<noteq> []) (split_on LF x))) m"
      using restoreCache_body [of same_number x m]
      by (simp add: readable_lines_def store_line_def [abs_def])
  qed
  from snd_restoreCache [of same_number outcome m] rejected body show ?thesis
    by (intro conjI)
qed

theorem restoreCache_swallows_errors_witness:
  "snd (restoreCache (\<lambda>a b. a = b) GetFileRejected []) = None \<and>
   fst (restoreCache (\<lambda>a b. a = b) GetFileRejected []) = [] \<and>
   snd (restoreCache (\<lambda>a b. a = b) (Body partly_corrupt_blob) []) = None \<and>
   fst (restoreCache (\<lambda>a b. a = b) (Body partly_corrupt_blob) []) =
     fold (\<lambda>line m. case parse_line line of
                        Inl e \<Rightarrow> m
                      | Inr (key, content) \<Rightarrow>
                          Map_set_by (SameValueZero (\<lambda>a b. a = b)) m key content)
       (takeWhile (\<lambda>line. \<not> isl (parse_line line))
          (filter (\<lambda>line. line \<noteq> []) (split_on LF partly_corrupt_blob))) [] \<and>
   fold (\<lambda>line m. case parse_line line of
                      Inl e \<Rightarrow> m
                    | Inr (key, content) \<Rightarrow>
                        Map_set_by (SameValueZero (\<lambda>a b. a = b)) m key content)
     (takeWhile (\<lambda>line. \<not> isl (parse_line line))
        (filter (\<lambda>line. line \<noteq> []) (split_on LF partly_corrupt_blob))) [] =
     [(Value (JString (js ''a'')), Value (JString (js ''b'')))]"
proof -
  note a = restoreCache_swallows_errors [of "\<lambda>a b. a = b" GetFileRejected "[]"]
  note b = restoreCache_swallows_errors [of "\<lambda>a b. a = b" "Body partly_corrupt_blob" "[]"]
  note a1 = a [THEN conjunct1]
  note a2 = a [THEN conjunct2, THEN conjunct1, THEN mp, OF disjI1 [OF refl]]
  note b1 = b [THEN conjunct1]
  note b2 = b [THEN conjunct2, THEN conjunct2, THEN spec, THEN mp, OF refl]
  have "js ''{'' \<noteq> []" by (simp add: js_def)
  moreover have "parse_line (js ''{'') = Inl SyntaxError"
    by (simp add: parse_line_def JSON_parse_brace)
  ultimately have stored: "fold (\<lambda>line m. case parse_line line of
                      Inl e \<Rightarrow> m
                    | Inr (key, content) \<Rightarrow>
                        Map_set_by (SameValueZero (\<lambda>a b. a = b)) m key content)
     (takeWhile (\<lambda>line. \<not> isl (parse_line line))
        (filter (\<lambda>line. line \<noteq> []) (split_on LF partly_corrupt_blob))) [] =
     [(Value (JString (js ''a'')), Value (JString (js ''b'')))]"
    by (simp add: lines_of_partly_corrupt_blob stringify_entry_nonempty
        parse_line_stringify_entry)
  show ?thesis
    by (rule conjI [OF a1 conjI [OF a2 conjI [OF b1 conjI [OF b2 stored]]]])
qed

section \<open>Ingestion Driver\<close>

text \<open>
  \<^verbatim>\<open>fetchAllContent\<close> with its two counters and the cache as the state, and what it asks of the
  outside world as a trace: the log lines, the fetch of the passages of a file (by its id), and
  every upload of the cache that succeeded (with the text uploaded). The listing of the files,
  the fetch of the passages and the upload may reject; the cap is a parameter, which
  \<^verbatim>\<open>MAX_FILES_TO_PROCESS\<close> instantiates.
\<close>

definition MAX_FILES_TO_PROCESS :: nat where
  "MAX_FILES_TO_PROCESS = 100"

record kb_file =
  file_id :: jsstring
  file_key :: jsstring

datatype ingest_event =
  Processing nat nat jsstring
| Skipping jsstring
| ReachedMax
| PassagesFetched jsstring
| CacheSaved jsstring

record ingest_state =
  fileCount :: nat
  newProcessedFiles :: nat
  fileContentCache :: cache
  trace :: "ingest_event list"

text \<open>
  One iteration of the loop ends with \<^verbatim>\<open>continue\<close> or at the end of the body (\<^verbatim>\<open>Next\<close>), with
  \<^verbatim>\<open>break\<close>, or with a rejected \<^verbatim>\<open>await\<close>. The test \<^verbatim>\<open>newProcessedFiles++ % 10 === 0\<close> reads the counter
  before the increment.
\<close>

datatype flow = Next ingest_state | Break ingest_state | Throw ingest_state error

definition save_step :: "(jsstring \<Rightarrow> error option) \<Rightarrow> ingest_state \<Rightarrow> ingest_state \<times> error option" where
  "save_step uploadFile s =
     (case saveCache uploadFile (fileContentCache s) of
        Some e \<Rightarrow> (s, Some e)
      | None \<Rightarrow> (s\<lparr>trace := trace s @ [CacheSaved (fileContent_of (fileContentCache s))]\<rparr>, None))"

definition ingest_file ::
  "(jsstring \<Rightarrow> error + passage list) \<Rightarrow> (jsstring \<Rightarrow> error option) \<Rightarrow> nat \<Rightarrow> nat \<Rightarrow>
   kb_file \<Rightarrow> ingest_state \<Rightarrow> flow" where
  "ingest_file filePassages uploadFile max_files n_files file s0 =
     (let s1 = s0\<lparr>fileCount := fileCount s0 + 1\<rparr> in
      if fileCount s1 > max_files then Break (s1\<lparr>trace := trace s1 @ [ReachedMax]\<rparr>)
      else
        let s2 = s1\<lparr>trace := trace s1 @ [Processing (fileCount s1) n_files (file_key file)]\<rparr> in
        if Map_has (fileContentCache s2) (file_key file) then
          Next (s2\<lparr>trace := trace s2 @ [Skipping (file_key file)]\<rparr>)
        else
          (case filePassages (file_id file) of
             Inl e \<Rightarrow> Throw s2 e
           | Inr x \<Rightarrow>
               let content = assemble x;
                   s3 = s2\<lparr>fileContentCache := Map_set (fileContentCache s2) (file_key file) content,
                          trace := trace s2 @ [PassagesFetched (file_id file)]\<rparr>;
                   s4 = s3\<lparr>newProcessedFiles := newProcessedFiles s3 + 1\<rparr> in
               if newProcessedFiles s3 mod 10 = 0 then
                 (case save_step uploadFile s4 of
                    (s5, Some e) \<Rightarrow> Throw s5 e
                  | (s5, None) \<Rightarrow> Next s5)
               else Next s4))"

fun ingest_files ::
  "(jsstring \<Rightarrow> error + passage list) \<Rightarrow> (jsstring \<Rightarrow> error option) \<Rightarrow> nat \<Rightarrow> nat \<Rightarrow>
   kb_file list \<Rightarrow> ingest_state \<Rightarrow> ingest_state \<times> error option" where
  "ingest_files filePassages uploadFile max_files n_files [] s = (s, None)"
| "ingest_files filePassages uploadFile max_files n_files (file # files) s =
     (case ingest_file filePassages uploadFile max_files n_files file s of
        Next s' \<Rightarrow> ingest_files filePassages uploadFile max_files n_files files s'
      | Break s' \<Rightarrow> (s', None)
      | Throw s' e \<Rightarrow> (s', Some e))"

definition fetchAllContent ::
  "(error + kb_file list) \<Rightarrow> (jsstring \<Rightarrow> error + passage list) \<Rightarrow> (jsstring \<Rightarrow> error option) \<Rightarrow>
   nat \<Rightarrow> cache \<Rightarrow> ingest_state \<times> error option" where
  "fetchAllContent listFiles filePassages uploadFile max_files cache0 =
     (let s0 = \<lparr>fileCount = 0, newProcessedFiles = 0, fileContentCache = cache0, trace = []\<rparr> in
      case listFiles of
        Inl e \<Rightarrow> (s0, Some e)
      | Inr files \<Rightarrow>
          (case ingest_files filePassages uploadFile max_files (length files) files s0 of
             (s, Some e) \<Rightarrow> (s, Some e)
           | (s, None) \<Rightarrow>
               if newProcessedFiles s > 0 then save_step uploadFile s else (s, None)))"

subsection \<open>Reading a trace\<close>

fun considered :: "ingest_event list \<Rightarrow> jsstring list" where
  "considered [] = []"
| "considered (Processing n n_files key # es) = key # considered es"
| "considered (e # es) = considered es"

fun fetched :: "ingest_event list \<Rightarrow> jsstring list" where
  "fetched [] = []"
| "fetched (PassagesFetched i # es) = i # fetched es"
| "fetched (e # es) = fetched es"

fun saved :: "ingest_event list \<Rightarrow> jsstring list" where
  "saved [] = []"
| "saved (CacheSaved x # es) = x # saved es"
| "saved (e # es) = saved es"

datatype mark = Fetched | Saved

fun marks :: "ingest_event list \<Rightarrow> mark list" where
  "marks [] = []"
| "marks (PassagesFetched i # es) = Fetched # marks es"
| "marks (CacheSaved x # es) = Saved # marks es"
| "marks (e # es) = marks es"

lemma considered_append [simp]: "considered (xs @ ys) = considered xs @ considered ys"
  by (induction xs rule: considered.induct) simp_all

lemma fetched_append [simp]: "fetched (xs @ ys) = fetched xs @ fetched ys"
  by (induction xs rule: fetched.induct) simp_all

lemma saved_append [simp]: "saved (xs @ ys) = saved xs @ saved ys"
  by (induction xs rule: saved.induct) simp_all

lemma marks_append [simp]: "marks (xs @ ys) = marks xs @ marks ys"
  by (induction xs rule: marks.induct) simp_all

subsection \<open>One iteration\<close>

lemma ingest_file_over_cap:
  "max_files \<le> fileCount s \<Longrightarrow>
   ingest_file fp up max_files n_files f s =
     Break (s\<lparr>fileCount := fileCount s + 1, trace := trace s @ [ReachedMax]\<rparr>)"
  by (simp add: ingest_file_def Let_def)

lemma ingest_file_cached:
  "fileCount s < max_files \<Longrightarrow> Map_has (fileContentCache s) (file_key f) \<Longrightarrow>
   ingest_file fp up max_files n_files f s =
     Next (s\<lparr>fileCount := fileCount s + 1,
              trace := trace s @ [Processing (fileCount s + 1) n_files (file_key f), Skipping (file_key f)]\<rparr>)"
  by (simp add: ingest_file_def Let_def)

lemma ingest_file_fetch_rejected:
  "fileCount s < max_files \<Longrightarrow> \<not> Map_has (fileContentCache s) (file_key f) \<Longrightarrow>
   fp (file_id f) = Inl e \<Longrightarrow>
   ingest_file fp up max_files n_files f s =
     Throw (s\<lparr>fileCount := fileCount s + 1,
               trace := trace s @ [Processing (fileCount s + 1) n_files (file_key f)]\<rparr>) e"
  by (simp add: ingest_file_def Let_def)

lemma ingest_file_new:
  "fileCount s < max_files \<Longrightarrow> \<not> Map_has (fileContentCache s) (file_key f) \<Longrightarrow>
   fp (file_id f) = Inr x \<Longrightarrow> newProcessedFiles s mod 10 \<noteq> 0 \<Longrightarrow>
   ingest_file fp up max_files n_files f s =
     Next (s\<lparr>fileCount := fileCount s + 1,
              newProcessedFiles := newProcessedFiles s + 1,
              fileContentCache := Map_set (fileContentCache s) (file_key f) (assemble x),
              trace := trace s @ [Processing (fileCount s + 1) n_files (file_key f),
                                  PassagesFetched (file_id f)]\<rparr>)"
  by (simp add: ingest_file_def Let_def)

lemma ingest_file_new_saved:
  "fileCount s < max_files \<Longrightarrow> \<not> Map_has (fileContentCache s) (file_key f) \<Longrightarrow>
   fp (file_id f) = Inr x \<Longrightarrow> newProcessedFiles s mod 10 = 0 \<Longrightarrow>
   up (fileContent_of (Map_set (fileContentCache s) (file_key f) (assemble x))) = None \<Longrightarrow>
   ingest_file fp up max_files n_files f s =
     Next (s\<lparr>fileCount := fileCount s + 1,
              newProcessedFiles := newProcessedFiles s + 1,
              fileContentCache := Map_set (fileContentCache s) (file_key f) (assemble x),
              trace := trace s @ [Processing (fileCount s + 1) n_files (file_key f),
                PassagesFetched (file_id f),
                CacheSaved (fileContent_of (Map_set (fileContentCache s) (file_key f) (assemble x)))]\<rparr>)"
  by (simp add: ingest_file_def Let_def save_step_def saveCache_def)

lemma ingest_file_save_rejected:
  "fileCount s < max_files \<Longrightarrow> \<not> Map_has (fileContentCache s) (file_key f) \<Longrightarrow>
   fp (file_id f) = Inr x \<Longrightarrow> newProcessedFiles s mod 10 = 0 \<Longrightarrow>
   up (fileContent_of (Map_set (fileContentCache s) (file_key f) (assemble x))) = Some e \<Longrightarrow>
   ingest_file fp up max_files n_files f s =
     Throw (s\<lparr>fileCount := fileCount s + 1,
              newProcessedFiles := newProcessedFiles s + 1,
              fileContentCache := Map_set (fileContentCache s) (file_key f) (assemble x),
              trace := trace s @ [Processing (fileCount s + 1) n_files (file_key f),
                PassagesFetched (file_id f)]\<rparr>) e"
  by (simp add: ingest_file_def Let_def save_step_def saveCache_def)

lemma ingest_file_cases [case_names over_cap cached fetch_rejected new new_saved save_rejected]:
  obtains
    "max_files \<le> fileCount s"
    "ingest_file fp up max_files n_files f s =
       Break (s\<lparr>fileCount := fileCount s + 1, trace := trace s @ [ReachedMax]\<rparr>)"
  | "fileCount s < max_files" "Map_has (fileContentCache s) (file_key f)"
    "ingest_file fp up max_files n_files f s =
       Next (s\<lparr>fileCount := fileCount s + 1,
              trace := trace s @ [Processing (fileCount s + 1) n_files (file_key f),
                                  Skipping (file_key f)]\<rparr>)"
  | e where "fileCount s < max_files" "\<not> Map_has (fileContentCache s) (file_key f)"
    "fp (file_id f) = Inl e"
    "ingest_file fp up max_files n_files f s =
       Throw (s\<lparr>fileCount := fileCount s + 1,
               trace := trace s @ [Processing (fileCount s + 1) n_files (file_key f)]\<rparr>) e"
  | x where "fileCount s < max_files" "\<not> Map_has (fileContentCache s) (file_key f)"
    "fp (file_id f) = Inr x" "newProcessedFiles s mod 10 \<noteq> 0"
    "ingest_file fp up max_files n_files f s =
       Next (s\<lparr>fileCount := fileCount s + 1,
              newProcessedFiles := newProcessedFiles s + 1,
              fileContentCache := Map_set (fileContentCache s) (file_key f) (assemble x),
              trace := trace s @ [Processing (fileCount s + 1) n_files (file_key f),
                                  PassagesFetched (file_id f)]\<rparr>)"
  | x where "fileCount s < max_files" "\<not> Map_has (fileContentCache s) (file_key f)"
    "fp (file_id f) = Inr x" "newProcessedFiles s mod 10 = 0"
    "up (fileContent_of (Map_set (fileContentCache s) (file_key f) (assemble x))) = None"
    "ingest_file fp up max_files n_files f s =
       Next (s\<lparr>fileCount := fileCount s + 1,
              newProcessedFiles := newProcessedFiles s + 1,
              fileContentCache := Map_set (fileContentCache s) (file_key f) (assemble x),
              trace := trace s @ [Processing (fileCount s + 1) n_files (file_key f),
                PassagesFetched (file_id f),
                CacheSaved (fileContent_of (Map_set (fileContentCache s) (file_key f) (assemble x)))]\<rparr>)"
  | x e where "fileCount s < max_files" "\<not> Map_has (fileContentCache s) (file_key f)"
    "fp (file_id f) = Inr x" "newProcessedFiles s mod 10 = 0"
    "up (fileContent_of (Map_set (fileContentCache s) (file_key f) (assemble x))) = Some e"
    "ingest_file fp up max_files n_files f s =
       Throw (s\<lparr>fileCount := fileCount s + 1,
              newProcessedFiles := newProcessedFiles s + 1,
              fileContentCache := Map_set (fileContentCache s) (file_key f) (assemble x),
              trace := trace s @ [Processing (fileCount s + 1) n_files (file_key f),
                PassagesFetched (file_id f)]\<rparr>) e"
proof (cases "max_files \<le> fileCount s")
  case True
  show ?thesis
    by (rule that(1) [OF True ingest_file_over_cap [where fp = fp and up = up, OF True]])
next
  case under: False
  then have lt: "fileCount s < max_files" by simp
  show ?thesis
  proof (cases "Map_has (fileContentCache s) (file_key f)")
    case True
    show ?thesis
      by (rule that(2) [OF lt True ingest_file_cached [where fp = fp and up = up, OF lt True]])
  next
    case fresh: False
    show ?thesis
    proof (cases "fp (file_id f)")
      case (Inl e)
      show ?thesis
        by (rule that(3) [OF lt fresh Inl ingest_file_fetch_rejected [where fp = fp and up = up, OF lt fresh Inl]])
    next
      case (Inr x)
      show ?thesis
      proof (cases "newProcessedFiles s mod 10 = 0")
        case False
        show ?thesis
          by (rule that(4) [OF lt fresh Inr False ingest_file_new [where fp = fp and up = up, OF lt fresh Inr False]])
      next
        case True
        show ?thesis
        proof (cases "up (fileContent_of (Map_set (fileContentCache s) (file_key f) (assemble x)))")
          case None
          show ?thesis
            by (rule that(5) [OF lt fresh Inr True None ingest_file_new_saved [where fp = fp and up = up, OF lt fresh Inr True None]])
        next
          case (Some e)
          show ?thesis
            by (rule that(6) [OF lt fresh Inr True Some
                  ingest_file_save_rejected [where fp = fp and up = up, OF lt fresh Inr True Some]])
        qed
      qed
    qed
  qed
qed

fun flow_state :: "flow \<Rightarrow> ingest_state" where
  "flow_state (Next s) = s"
| "flow_state (Break s) = s"
| "flow_state (Throw s e) = s"

lemma step_break:
  "(\<exists>s1. ingest_file fp up max_files n_files f s = Break s1) \<longleftrightarrow> max_files \<le> fileCount s"
  by (cases rule: ingest_file_cases [of max_files s fp up n_files f]) simp_all

lemma step_fileCount:
  "fileCount (flow_state (ingest_file fp up max_files n_files f s)) = fileCount s + 1"
  by (cases rule: ingest_file_cases [of max_files s fp up n_files f]) simp_all






lemma step_keys_mono:
  "fst ` set (fileContentCache s) \<subseteq>
   fst ` set (fileContentCache (flow_state (ingest_file fp up max_files n_files f s)))"
  by (cases rule: ingest_file_cases [of max_files s fp up n_files f])
     (auto simp: keys_Map_set)

lemma step_key_present:
  "ingest_file fp up max_files n_files f s = Next s1 \<Longrightarrow>
   file_key f \<in> fst ` set (fileContentCache s1)"
  by (cases rule: ingest_file_cases [of max_files s fp up n_files f])
     (auto simp: keys_Map_set Map_has_def)

lemma ingest_files_keys:
  assumes "ingest_files fp up max_files n_files files s = (s', status)"
  shows "fst ` set (fileContentCache s) \<subseteq> fst ` set (fileContentCache s') \<and>
         (status = None \<longrightarrow>
            file_key ` set (take (max_files - fileCount s) files) \<subseteq> fst ` set (fileContentCache s'))"
  using assms
proof (induction files arbitrary: s)
  case Nil
  then show ?case by simp
next
  case (Cons f fs)
  let ?r = "ingest_file fp up max_files n_files f s"
  note brk = step_break [of fp up max_files n_files f s]
  note fc = step_fileCount [of fp up max_files n_files f s]
  note mono = step_keys_mono [of s fp up max_files n_files f]
  show ?case
  proof (cases ?r)
    case (Break s1)
    with brk have over: "max_files \<le> fileCount s" by auto
    from Break Cons.prems have s': "s' = s1" by simp
    from mono Break over show ?thesis by (simp add: s')
  next
    case (Throw s1 e)
    from Throw Cons.prems have s': "s' = s1" "status = Some e" by simp_all
    from mono Throw show ?thesis by (simp add: s')
  next
    case (Next s1)
    with brk have under: "fileCount s < max_files" by auto
    then have tk: "take (max_files - fileCount s) (f # fs) =
        f # take (max_files - fileCount s - 1) fs"
      by (simp add: take_Cons')
    from Next Cons.prems have run1: "ingest_files fp up max_files n_files fs s1 = (s', status)"
      by simp
    from fc Next have fc1: "max_files - fileCount s1 = max_files - fileCount s - 1"
      by simp
    from mono Next have m1: "fst ` set (fileContentCache s) \<subseteq> fst ` set (fileContentCache s1)"
      by simp
    note present = step_key_present [OF Next]
    note ih = Cons.IH [OF run1, unfolded fc1]
    have a: "fst ` set (fileContentCache s) \<subseteq> fst ` set (fileContentCache s')"
      by (rule subset_trans [OF m1 ih [THEN conjunct1]])
    have b: "status = None \<longrightarrow>
        file_key ` set (f # take (max_files - fileCount s - 1) fs) \<subseteq> fst ` set (fileContentCache s')"
    proof
      assume "status = None"
      with ih have rest: "file_key ` set (take (max_files - fileCount s - 1) fs) \<subseteq>
          fst ` set (fileContentCache s')"
        by simp
      from present ih [THEN conjunct1] have "file_key f \<in> fst ` set (fileContentCache s')"
        by (rule subsetD [rotated])
      with rest show "file_key ` set (f # take (max_files - fileCount s - 1) fs) \<subseteq>
          fst ` set (fileContentCache s')"
        by simp
    qed
    from a b show ?thesis unfolding tk by (intro conjI)
  qed
qed

lemma ingest_files_all_cached:
  assumes "\<forall>f \<in> set (take (max_files - fileCount s) files). Map_has (fileContentCache s) (file_key f)"
  shows "\<exists>s'. ingest_files fp up max_files n_files files s = (s', None) \<and>
           fileContentCache s' = fileContentCache s \<and>
           newProcessedFiles s' = newProcessedFiles s \<and>
           fetched (trace s') = fetched (trace s) \<and>
           saved (trace s') = saved (trace s)"
  using assms
proof (induction files arbitrary: s)
  case Nil
  show ?case by simp
next
  case (Cons f fs)
  show ?case
  proof (cases "max_files \<le> fileCount s")
    case True
    then show ?thesis
      by (simp add: ingest_file_over_cap)
  next
    case False
    then have under: "fileCount s < max_files" by simp
    then have tk: "take (max_files - fileCount s) (f # fs) =
        f # take (max_files - fileCount s - 1) fs"
      by (simp add: take_Cons')
    from Cons.prems have cached: "Map_has (fileContentCache s) (file_key f)"
      unfolding tk by simp
    let ?s1 = "s\<lparr>fileCount := fileCount s + 1,
              trace := trace s @ [Processing (fileCount s + 1) n_files (file_key f),
                                  Skipping (file_key f)]\<rparr>"
    have step: "ingest_file fp up max_files n_files f s = Next ?s1"
      by (rule ingest_file_cached [OF under cached])
    from Cons.prems
    have "\<forall>g \<in> set (take (max_files - fileCount ?s1) fs). Map_has (fileContentCache ?s1) (file_key g)"
      unfolding tk by simp
    from Cons.IH [OF this, of ] obtain s' where
      "ingest_files fp up max_files n_files fs ?s1 = (s', None)"
      "fileContentCache s' = fileContentCache ?s1"
      "newProcessedFiles s' = newProcessedFiles ?s1"
      "fetched (trace s') = fetched (trace ?s1)"
      "saved (trace s') = saved (trace ?s1)"
      by blast
    then show ?thesis
      by (simp add: step)
  qed
qed

lemma fetchAllContent_completed:
  assumes "fetchAllContent (Inr files) fp up max_files cache0 = (s, None)"
  shows "\<exists>sa. ingest_files fp up max_files (length files) files
             \<lparr>fileCount = 0, newProcessedFiles = 0, fileContentCache = cache0, trace = []\<rparr> =
               (sa, None) \<and>
           fileContentCache s = fileContentCache sa \<and>
           newProcessedFiles s = newProcessedFiles sa \<and>
           trace s = trace sa @
             (if 0 < newProcessedFiles sa then [CacheSaved (fileContent_of (fileContentCache sa))]
              else [])"
proof -
  let ?s0 = "\<lparr>fileCount = 0, newProcessedFiles = 0, fileContentCache = cache0, trace = []\<rparr>"
  obtain sa st where run: "ingest_files fp up max_files (length files) files ?s0 = (sa, st)"
    by (cases "ingest_files fp up max_files (length files) files ?s0")
  show ?thesis
  proof (cases st)
    case (Some e)
    with assms run show ?thesis by (simp add: fetchAllContent_def)
  next
    case None
    show ?thesis
    proof (cases "0 < newProcessedFiles sa")
      case False
      with assms run None show ?thesis by (simp add: fetchAllContent_def)
    next
      case True
      with assms run None show ?thesis
        by (auto simp: fetchAllContent_def save_step_def split: option.splits)
    qed
  qed
qed


subsection \<open>Checkpoints\<close>
















definition fetch_none :: "jsstring \<Rightarrow> error + passage list" where
  "fetch_none fileId = Inr []"

definition upload_ok :: "jsstring \<Rightarrow> error option" where
  "upload_ok fileContent = None"


lemma assemble_Nil: "assemble [] = []"
  by (simp add: assemble_def Array_sort_def)





lemma fetchAllContent_all_cached:
  assumes "\<forall>f \<in> set (take max_files files). Map_has cache0 (file_key f)"
  shows "\<exists>s. fetchAllContent (Inr files) fp up max_files cache0 = (s, None) \<and>
           fileContentCache s = cache0 \<and> newProcessedFiles s = 0 \<and>
           fetched (trace s) = [] \<and> saved (trace s) = []"
proof -
  let ?s0 = "\<lparr>fileCount = 0, newProcessedFiles = 0, fileContentCache = cache0, trace = []\<rparr>"
  from assms
  have "\<forall>f \<in> set (take (max_files - fileCount ?s0) files). Map_has (fileContentCache ?s0) (file_key f)"
    by simp
  from ingest_files_all_cached [OF this, of fp up "length files"] obtain sa where
    "ingest_files fp up max_files (length files) files ?s0 = (sa, None)"
    "fileContentCache sa = cache0" "newProcessedFiles sa = 0"
    "fetched (trace sa) = []" "saved (trace sa) = []"
    by auto
  then show ?thesis
    by (simp add: fetchAllContent_def)
qed

lemma fetchAllContent_keys:
  assumes "fetchAllContent (Inr files) fp up max_files cache0 = (s, None)"
  shows "\<forall>f \<in> set (take max_files files). Map_has (fileContentCache s) (file_key f)"
proof -
  from fetchAllContent_completed [OF assms] obtain sa where
    run: "ingest_files fp up max_files (length files) files
             \<lparr>fileCount = 0, newProcessedFiles = 0, fileContentCache = cache0, trace = []\<rparr> =
               (sa, None)"
    and c: "fileContentCache s = fileContentCache sa"
    by blast
  from ingest_files_keys [OF run]
  have "file_key ` set (take max_files files) \<subseteq> fst ` set (fileContentCache s)"
    by (simp add: c)
  then show ?thesis
    by (auto simp: Map_has_def)
qed

definition two_files :: "kb_file list" where
  "two_files = [\<lparr>file_id = js ''id-a'', file_key = js ''a''\<rparr>, \<lparr>file_id = js ''id-b'', file_key = js ''b''\<rparr>]"

definition two_files_ingested :: ingest_state where
  "two_files_ingested =
     \<lparr>fileCount = 2, newProcessedFiles = 2,
      fileContentCache = [(js ''a'', []), (js ''b'', [])],
      trace = [Processing 1 2 (js ''a''), PassagesFetched (js ''id-a''),
               CacheSaved (fileContent_of [(js ''a'', [])]),
               Processing 2 2 (js ''b''), PassagesFetched (js ''id-b''),
               CacheSaved (fileContent_of [(js ''a'', []), (js ''b'', [])])]\<rparr>"


lemma two_files_run:
  "fetchAllContent (Inr two_files) fetch_none upload_ok MAX_FILES_TO_PROCESS [] =
     (two_files_ingested, None)"
proof -
  have "js ''a'' \<noteq> js ''b''" by (simp add: js_def)
  then show ?thesis
    by (simp add: fetchAllContent_def two_files_def fetch_none_def upload_ok_def
        ingest_file_def Let_def save_step_def saveCache_def Map_has_def assemble_Nil
        two_files_ingested_def MAX_FILES_TO_PROCESS_def)
qed

text \<open>
  Claim C4. A document under the cap whose key is in the cache is skipped: the iteration only
  counts it and logs, it fetches no passages and leaves the cache and the counter of new
  documents alone. Hence a run on a document list whose considered documents are all cached
  completes without a fetch, an upload or a change to the cache; and after a run that
  completed, a second run on the same document list, whatever the cap and whatever the
  content store and the blob store now answer, completes with exactly the entries of the
  first run, processes no new document, fetches nothing and uploads nothing.
\<close>

theorem ingestion_idempotent:
  "(fileCount s < max_files \<and> Map_has (fileContentCache s) (file_key f) \<longrightarrow>
      ingest_file filePassages uploadFile max_files n_files f s =
        Next (s\<lparr>fileCount := fileCount s + 1,
                 trace := trace s @ [Processing (fileCount s + 1) n_files (file_key f),
                                     Skipping (file_key f)]\<rparr>)) \<and>
   ((\<forall>f \<in> set (take max_files files). Map_has cache0 (file_key f)) \<longrightarrow>
      (\<exists>s. fetchAllContent (Inr files) filePassages uploadFile max_files cache0 = (s, None) \<and>
           fileContentCache s = cache0 \<and> newProcessedFiles s = 0 \<and>
           fetched (trace s) = [] \<and> saved (trace s) = [])) \<and>
   (fetchAllContent (Inr files) filePassages uploadFile max_files cache0 = (s1, None) \<longrightarrow>
      (\<exists>s2. fetchAllContent (Inr files) filePassages' uploadFile' max_files (fileContentCache s1) =
              (s2, None) \<and>
            fileContentCache s2 = fileContentCache s1 \<and> newProcessedFiles s2 = 0 \<and>
            fetched (trace s2) = [] \<and> saved (trace s2) = []))"
proof (intro conjI impI)
  assume "fileCount s < max_files \<and> Map_has (fileContentCache s) (file_key f)"
  then show "ingest_file filePassages uploadFile max_files n_files f s =
        Next (s\<lparr>fileCount := fileCount s + 1,
                 trace := trace s @ [Processing (fileCount s + 1) n_files (file_key f),
                                     Skipping (file_key f)]\<rparr>)"
    by (simp add: ingest_file_cached)
next
  assume "\<forall>f \<in> set (take max_files files). Map_has cache0 (file_key f)"
  then show "\<exists>s. fetchAllContent (Inr files) filePassages uploadFile max_files cache0 = (s, None) \<and>
           fileContentCache s = cache0 \<and> newProcessedFiles s = 0 \<and>
           fetched (trace s) = [] \<and> saved (trace s) = []"
    by (rule fetchAllContent_all_cached)
next
  assume "fetchAllContent (Inr files) filePassages uploadFile max_files cache0 = (s1, None)"
  then have "\<forall>f \<in> set (take max_files files). Map_has (fileContentCache s1) (file_key f)"
    by (rule fetchAllContent_keys)
  then show "\<exists>s2. fetchAllContent (Inr files) filePassages' uploadFile' max_files
                (fileContentCache s1) = (s2, None) \<and>
            fileContentCache s2 = fileContentCache s1 \<and> newProcessedFiles s2 = 0 \<and>
            fetched (trace s2) = [] \<and> saved (trace s2) = []"
    by (rule fetchAllContent_all_cached)
qed

theorem ingestion_idempotent_witness:
  "Map_has [(js ''a'', []), (js ''b'', [])] (js ''a'') \<and>
   Map_has [(js ''a'', []), (js ''b'', [])] (js ''b'') \<and>
   ingest_file fetch_none upload_ok MAX_FILES_TO_PROCESS 2
     \<lparr>file_id = js ''id-a'', file_key = js ''a''\<rparr>
     \<lparr>fileCount = 0, newProcessedFiles = 0,
      fileContentCache = [(js ''a'', []), (js ''b'', [])], trace = []\<rparr> =
     Next \<lparr>fileCount = 1, newProcessedFiles = 0,
           fileContentCache = [(js ''a'', []), (js ''b'', [])],
           trace = [Processing 1 2 (js ''a''), Skipping (js ''a'')]\<rparr> \<and>
   (\<exists>s. fetchAllContent (Inr two_files) fetch_none upload_ok MAX_FILES_TO_PROCESS
          [(js ''a'', []), (js ''b'', [])] = (s, None) \<and>
        fileContentCache s = [(js ''a'', []), (js ''b'', [])] \<and> newProcessedFiles s = 0 \<and>
        fetched (trace s) = [] \<and> saved (trace s) = []) \<and>
   fetchAllContent (Inr two_files) fetch_none upload_ok MAX_FILES_TO_PROCESS [] =
     (two_files_ingested, None) \<and>
   (\<exists>s2. fetchAllContent (Inr two_files) fetch_none upload_ok MAX_FILES_TO_PROCESS
           (fileContentCache two_files_ingested) = (s2, None) \<and>
         fileContentCache s2 = fileContentCache two_files_ingested \<and> newProcessedFiles s2 = 0 \<and>
         fetched (trace s2) = [] \<and> saved (trace s2) = [])"
proof -
  have a: "Map_has [(js ''a'', []), (js ''b'', [])] (js ''a'')"
    and b: "Map_has [(js ''a'', []), (js ''b'', [])] (js ''b'')"
    by (simp_all add: Map_has_def)
  then have cached: "\<forall>f \<in> set (take MAX_FILES_TO_PROCESS two_files).
      Map_has [(js ''a'', []), (js ''b'', [])] (file_key f)"
    by (simp add: two_files_def MAX_FILES_TO_PROCESS_def)
  have under: "fileCount \<lparr>fileCount = 0, newProcessedFiles = 0,
        fileContentCache = [(js ''a'', []), (js ''b'', [])], trace = []\<rparr> < MAX_FILES_TO_PROCESS \<and>
      Map_has (fileContentCache \<lparr>fileCount = 0, newProcessedFiles = 0,
        fileContentCache = [(js ''a'', []), (js ''b'', [])], trace = []\<rparr>)
        (file_key \<lparr>file_id = js ''id-a'', file_key = js ''a''\<rparr>)"
    using a by (simp add: MAX_FILES_TO_PROCESS_def)
  note skip = ingestion_idempotent [where s = "\<lparr>fileCount = 0, newProcessedFiles = 0,
        fileContentCache = [(js ''a'', []), (js ''b'', [])], trace = []\<rparr>"
      and max_files = MAX_FILES_TO_PROCESS
      and f = "\<lparr>file_id = js ''id-a'', file_key = js ''a''\<rparr>"
      and filePassages = fetch_none and uploadFile = upload_ok and n_files = 2,
      THEN conjunct1, THEN mp, OF under]
  have skipped: "ingest_file fetch_none upload_ok MAX_FILES_TO_PROCESS 2
     \<lparr>file_id = js ''id-a'', file_key = js ''a''\<rparr>
     \<lparr>fileCount = 0, newProcessedFiles = 0,
      fileContentCache = [(js ''a'', []), (js ''b'', [])], trace = []\<rparr> =
     Next \<lparr>fileCount = 1, newProcessedFiles = 0,
           fileContentCache = [(js ''a'', []), (js ''b'', [])],
           trace = [Processing 1 2 (js ''a''), Skipping (js ''a'')]\<rparr>"
    unfolding skip by simp
  note first = ingestion_idempotent [where max_files = MAX_FILES_TO_PROCESS and files = two_files
      and ?cache0.0 = "[(js ''a'', []), (js ''b'', [])]" and filePassages = fetch_none
      and uploadFile = upload_ok, THEN conjunct2, THEN conjunct1, THEN mp, OF cached]
  note second = ingestion_idempotent [where max_files = MAX_FILES_TO_PROCESS and files = two_files
      and ?cache0.0 = "[]" and filePassages = fetch_none and uploadFile = upload_ok
      and ?s1.0 = two_files_ingested and filePassages' = fetch_none and uploadFile' = upload_ok,
      THEN conjunct2, THEN conjunct2, THEN mp, OF two_files_run]
  from a b skipped first two_files_run second show ?thesis
    by (intro conjI)
qed






















end
